theory Spec2Isabelle
  imports Main "HOL-Library.Sublist"
begin

section \<open>The Apt message reader (src/apt/message\_reader.go)\<close>

text \<open>
  A shallow embedding of \<^verbatim>\<open>MessageReader.ReadMessage\<close>, \<^verbatim>\<open>parseHeader\<close> and
  \<^verbatim>\<open>parseField\<close>. Go strings are byte strings; a \<^typ>\<open>char\<close> is one byte.
\<close>

subsection \<open>Library functions the reader calls\<close>

abbreviation NL :: char where "NL \<equiv> CHR 0x0A"
abbreviation SP :: char where "SP \<equiv> CHR 0x20"
abbreviation COLON :: char where "COLON \<equiv> CHR 0x3A"

text \<open>
  \<^verbatim>\<open>unicode.IsSpace\<close>: the UTF-8 encodings of the code points with the property
  White\_Space: U+0009..U+000D, U+0020, U+0085, U+00A0, U+1680, U+2000..U+200A, U+2028,
  U+2029, U+202F, U+205F, U+3000. \<^verbatim>\<open>utf8.DecodeRuneInString\<close> and
  \<^verbatim>\<open>utf8.DecodeLastRuneInString\<close> yield one of these runes exactly when the
  string starts (ends) with its encoding; an invalid byte decodes to U+FFFD, which is not
  white space.
\<close>

definition whiteSpace :: "string list" where
  "whiteSpace =
    [[CHR 0x09], [CHR 0x0A], [CHR 0x0B], [CHR 0x0C], [CHR 0x0D], [CHR 0x20],
     [CHR 0xC2, CHR 0x85], [CHR 0xC2, CHR 0xA0],
     [CHR 0xE1, CHR 0x9A, CHR 0x80],
     [CHR 0xE2, CHR 0x80, CHR 0x80], [CHR 0xE2, CHR 0x80, CHR 0x81],
     [CHR 0xE2, CHR 0x80, CHR 0x82], [CHR 0xE2, CHR 0x80, CHR 0x83],
     [CHR 0xE2, CHR 0x80, CHR 0x84], [CHR 0xE2, CHR 0x80, CHR 0x85],
     [CHR 0xE2, CHR 0x80, CHR 0x86], [CHR 0xE2, CHR 0x80, CHR 0x87],
     [CHR 0xE2, CHR 0x80, CHR 0x88], [CHR 0xE2, CHR 0x80, CHR 0x89],
     [CHR 0xE2, CHR 0x80, CHR 0x8A],
     [CHR 0xE2, CHR 0x80, CHR 0xA8], [CHR 0xE2, CHR 0x80, CHR 0xA9],
     [CHR 0xE2, CHR 0x80, CHR 0xAF],
     [CHR 0xE2, CHR 0x81, CHR 0x9F],
     [CHR 0xE3, CHR 0x80, CHR 0x80]]"

text \<open>The width in bytes of the white-space rune a string starts (ends) with; 0 if none.\<close>

definition leadingSpace :: "string \<Rightarrow> nat" where
  "leadingSpace s =
     (case find (\<lambda>e. prefix e s) whiteSpace of None \<Rightarrow> 0 | Some e \<Rightarrow> length e)"

definition trailingSpace :: "string \<Rightarrow> nat" where
  "trailingSpace s =
     (case find (\<lambda>e. suffix e s) whiteSpace of None \<Rightarrow> 0 | Some e \<Rightarrow> length e)"

lemma leadingSpace_le: "leadingSpace s \<le> length s"
  by (auto simp: leadingSpace_def find_Some_iff prefix_length_le split: option.splits)

lemma trailingSpace_le: "trailingSpace s \<le> length s"
  by (auto simp: trailingSpace_def find_Some_iff suffix_length_le split: option.splits)

text \<open>\<^verbatim>\<open>strings.TrimLeftFunc(s, unicode.IsSpace)\<close>: drop white-space runes from the front.\<close>

function TrimLeft :: "string \<Rightarrow> string" where
  "TrimLeft s = (if leadingSpace s = 0 then s else TrimLeft (drop (leadingSpace s) s))"
  by pat_completeness auto
termination
proof (relation "measure length")
  fix s :: string
  assume "leadingSpace s \<noteq> 0"
  moreover have "leadingSpace s \<le> length s" by (rule leadingSpace_le)
  ultimately show "(drop (leadingSpace s) s, s) \<in> measure length" by simp
qed simp

text \<open>\<^verbatim>\<open>strings.TrimRightFunc(s, unicode.IsSpace)\<close>: drop white-space runes from the back.\<close>

function TrimRight :: "string \<Rightarrow> string" where
  "TrimRight s =
     (if trailingSpace s = 0 then s else TrimRight (take (length s - trailingSpace s) s))"
  by pat_completeness auto
termination
proof (relation "measure length")
  fix s :: string
  assume "trailingSpace s \<noteq> 0"
  moreover have "trailingSpace s \<le> length s" by (rule trailingSpace_le)
  ultimately show "(take (length s - trailingSpace s) s, s) \<in> measure length" by simp
qed simp

declare TrimLeft.simps [simp del] TrimRight.simps [simp del]

text \<open>
  \<^verbatim>\<open>strings.TrimSpace\<close>. Its ASCII fast path returns what
  \<^verbatim>\<open>TrimFunc(s, unicode.IsSpace)\<close> returns, which trims the front, then the back.
\<close>

definition TrimSpace :: "string \<Rightarrow> string" where
  "TrimSpace s = TrimRight (TrimLeft s)"

text \<open>
  \<^verbatim>\<open>strings.SplitN(s, sep, n)\<close> for a separator of one byte: at most \<open>n\<close> pieces,
  the last one the unsplit remainder; \<open>n = 0\<close> gives no piece at all.
\<close>

fun SplitN :: "string \<Rightarrow> char \<Rightarrow> nat \<Rightarrow> string list" where
  "SplitN s sep 0 = []"
| "SplitN s sep (Suc 0) = [s]"
| "SplitN s sep (Suc (Suc n)) =
     (if sep \<in> set s
      then takeWhile (\<lambda>c. c \<noteq> sep) s # SplitN (tl (dropWhile (\<lambda>c. c \<noteq> sep) s)) sep (Suc n)
      else [s])"

text \<open>
  \<^verbatim>\<open>strconv.Atoi\<close>: an optional sign, then one or more decimal digits and nothing
  else; a value outside the range of \<^verbatim>\<open>int\<close> is an error. \<^verbatim>\<open>int\<close> has 64 bits
  on the platforms the method is built for.
\<close>

definition intSize :: nat where
  "intSize = 64"

definition isDigit :: "char \<Rightarrow> bool" where
  "isDigit c = (c \<in> set ''0123456789'')"

definition digitVal :: "char \<Rightarrow> int" where
  "digitVal c = of_char c - 48"

fun parseDigits :: "string \<Rightarrow> int \<Rightarrow> int option" where
  "parseDigits [] n = Some n"
| "parseDigits (c # cs) n =
     (if isDigit c then parseDigits cs (n * 10 + digitVal c) else None)"

definition Atoi :: "string \<Rightarrow> int option" where
  "Atoi s =
     (case s of
        [] \<Rightarrow> None
      | c # cs \<Rightarrow>
          let neg = (c = CHR ''-'');
              ds = (if c = CHR ''-'' \<or> c = CHR ''+'' then cs else s)
          in if ds = [] then None
             else (case parseDigits ds 0 of
                     None \<Rightarrow> None
                   | Some n \<Rightarrow>
                       let v = (if neg then - n else n)
                       in if - (2 ^ (intSize - 1)) \<le> v \<and> v < 2 ^ (intSize - 1)
                          then Some v else None))"

subsection \<open>The data model\<close>

text \<open>
  Modelled from the spec: the declaration of \<^verbatim>\<open>Message\<close> is not among the sources
  (the reader and the tests use its fields \<^verbatim>\<open>code\<close>, \<^verbatim>\<open>description\<close> and
  \<^verbatim>\<open>fields\<close>, of type \<^verbatim>\<open>map[string][]string\<close>). A message is an integer code, a
  description and the fields, a map from a key to its values in the order they were
  appended. \<open>fields'\<close> is the Go field \<^verbatim>\<open>fields\<close>, a name the record package keeps
  for itself. A Go map is \<^verbatim>\<open>nil\<close> until it is made: \<open>None\<close> is the nil map.
\<close>

record Message =
  code :: int
  description :: string
  fields' :: "(string \<rightharpoonup> string list) option"

text \<open>\<^verbatim>\<open>&Message{}\<close>: every field has its zero value.\<close>

definition zeroMessage :: Message where
  "zeroMessage = \<lparr>code = 0, description = [], fields' = None\<rparr>"

text \<open>Reading \<^verbatim>\<open>m.fields[key]\<close>: a nil map and a missing key give the nil slice.\<close>

definition fieldValues :: "Message \<Rightarrow> string \<Rightarrow> string list" where
  "fieldValues m key =
     (case fields' m of
        None \<Rightarrow> []
      | Some f \<Rightarrow> (case f key of None \<Rightarrow> [] | Some vs \<Rightarrow> vs))"

text \<open>
  The errors \<^verbatim>\<open>ReadMessage\<close> returns. \<open>Extern\<close> carries an error value made
  outside the reader (by the byte source or by the context), of a type \<open>'x\<close> the reader
  knows nothing about. The malformed-line errors carry the trimmed line they quote.
\<close>

datatype 'x error =
    Extern 'x
  | EmptyMessage
  | EmptyHeader
  | DoubleHeader
  | HeaderParts string
  | HeaderCode string
  | EmptyField
  | FieldParts string
  | FieldEmpty string

text \<open>
  What the reader did to the outside world, in order: a poll of the context's
  \<^verbatim>\<open>Done\<close> channel, a \<^verbatim>\<open>ReadString\<close> that returned a line, one that returned
  an error.
\<close>

datatype event = Poll | ReadOk | ReadFail

text \<open>
  \<^verbatim>\<open>MessageReader\<close> with the \<^verbatim>\<open>bufio.Reader\<close> it points to: \<open>input\<close> are the
  bytes the source still delivers, \<open>inputErr\<close> the error it reports once they run out
  (\<^verbatim>\<open>io.EOF\<close> at the end of a stream); \<open>message\<close> is the in-progress message,
  \<open>None\<close> for nil; \<open>trace\<close> logs the events so far.
\<close>

record 'x MessageReader =
  input :: string
  inputErr :: 'x
  message :: "Message option"
  trace :: "event list"

text \<open>
  A \<^verbatim>\<open>context.Context\<close>, as the reader sees it: what \<^verbatim>\<open>ctx.Err()\<close> is at each
  instant, \<open>None\<close> while \<^verbatim>\<open>Done\<close> is open. The instants are counted in events.
\<close>

type_synonym 'x Context = "nat \<Rightarrow> 'x option"

text \<open>A call returns, or the goroutine panics (a nil pointer is dereferenced).\<close>

datatype 'a exec = Panicked | Done 'a

subsection \<open>The reader\<close>

text \<open>
  \<^verbatim>\<open>bufio.Reader.ReadString(delim)\<close>: the bytes up to and including the first
  \<open>delim\<close>; when the source runs out before one, its error (the bytes read so far are
  returned with it, and \<^verbatim>\<open>ReadMessage\<close> drops them). Every source here ends, with
  an error; one that blocks for ever with neither a line nor an error is not modelled.
\<close>

definition ReadString :: "char \<Rightarrow> 'x MessageReader \<Rightarrow> ('x + string) \<times> 'x MessageReader" where
  "ReadString delim r =
     (if delim \<in> set (input r)
      then (Inr (takeWhile (\<lambda>c. c \<noteq> delim) (input r) @ [delim]),
            r\<lparr>input := tl (dropWhile (\<lambda>c. c \<noteq> delim) (input r)),
              trace := trace r @ [ReadOk]\<rparr>)
      else (Inl (inputErr r), r\<lparr>input := [], trace := trace r @ [ReadFail]\<rparr>))"

text \<open>
  \<^verbatim>\<open>parseHeader\<close> returns \<open>None\<close> for a nil error. It writes the code and the
  description into \<^verbatim>\<open>r.message\<close> only when the whole line has parsed; with
  \<^verbatim>\<open>r.message\<close> nil it dereferences a nil pointer.
\<close>

definition parseHeader ::
  "string \<Rightarrow> 'x MessageReader \<Rightarrow> ('x error option \<times> 'x MessageReader) exec" where
  "parseHeader line r =
     (if line = [] then Done (Some EmptyHeader, r)
      else (case message r of
              None \<Rightarrow> Panicked
            | Some m \<Rightarrow>
                if code m \<noteq> 0 \<or> description m \<noteq> [] then Done (Some DoubleHeader, r)
                else let line' = TrimSpace line in
                  (case SplitN line' SP 2 of
                     [p0, p1] \<Rightarrow>
                       (case Atoi (TrimSpace p0) of
                          None \<Rightarrow> Done (Some (HeaderCode line'), r)
                        | Some c \<Rightarrow>
                            Done (None,
                              r\<lparr>message := Some (m\<lparr>code := c, description := TrimSpace p1\<rparr>)\<rparr>))
                   | _ \<Rightarrow> Done (Some (HeaderParts line'), r))))"

text \<open>
  \<^verbatim>\<open>parseField\<close> makes the map of a message that has none before it looks at the key
  and the value, so a line with an empty key or value leaves the made map behind; then it
  appends the value to the values of the key.
\<close>

definition parseField ::
  "string \<Rightarrow> 'x MessageReader \<Rightarrow> ('x error option \<times> 'x MessageReader) exec" where
  "parseField line r =
     (if line = [] then Done (Some EmptyField, r)
      else let line' = TrimSpace line in
        (case SplitN line' COLON 2 of
           p0 # p1 # _ \<Rightarrow>
             (case message r of
                None \<Rightarrow> Panicked
              | Some m \<Rightarrow>
                  let fs = (case fields' m of None \<Rightarrow> Map.empty | Some f \<Rightarrow> f);
                      m1 = m\<lparr>fields' := Some fs\<rparr>;
                      key = TrimSpace p0;
                      val = TrimSpace p1
                  in if key = [] \<or> val = []
                     then Done (Some (FieldEmpty line'), r\<lparr>message := Some m1\<rparr>)
                     else let fieldlist = (case fs key of None \<Rightarrow> [] | Some vs \<Rightarrow> vs)
                          in Done (None,
                               r\<lparr>message :=
                                   Some (m1\<lparr>fields' := Some (fs(key \<mapsto> fieldlist @ [val]))\<rparr>)\<rparr>))
         | _ \<Rightarrow> Done (Some (FieldParts line'), r)))"

lemma ReadString_shorter:
  "ReadString delim r = (Inr line, r') \<Longrightarrow> length (input r') < length (input r)"
proof -
  assume a: "ReadString delim r = (Inr line, r')"
  then have m: "delim \<in> set (input r)"
    by (simp add: ReadString_def split: if_splits)
  then have ne: "dropWhile (\<lambda>c. c \<noteq> delim) (input r) \<noteq> []"
    by simp
  have "input r' = tl (dropWhile (\<lambda>c. c \<noteq> delim) (input r))"
    using a m by (auto simp: ReadString_def)
  moreover have "length (dropWhile (\<lambda>c. c \<noteq> delim) (input r)) \<le> length (input r)"
    by (rule length_dropWhile_le)
  ultimately show ?thesis using ne
    by (cases "dropWhile (\<lambda>c. c \<noteq> delim) (input r)") auto
qed

lemma parseHeader_input: "parseHeader line r = Done (e, r') \<Longrightarrow> input r' = input r"
  by (auto simp: parseHeader_def Let_def split: if_splits option.splits list.splits)

lemma parseField_input: "parseField line r = Done (e, r') \<Longrightarrow> input r' = input r"
  by (auto simp: parseField_def Let_def split: if_splits option.splits list.splits)

text \<open>
  \<^verbatim>\<open>ReadMessage\<close>: one round of the \<^verbatim>\<open>for\<close> loop per line. The
  \<^verbatim>\<open>select\<close> with a \<^verbatim>\<open>default\<close> branch is the poll; it takes the
  \<^verbatim>\<open>ctx.Done()\<close> branch exactly when the channel is closed at that instant.
\<close>

function ReadMessage ::
  "'x Context \<Rightarrow> 'x MessageReader \<Rightarrow> (('x error + Message) \<times> 'x MessageReader) exec" where
  "ReadMessage ctx r =
     (let r1 = r\<lparr>trace := trace r @ [Poll]\<rparr> in
      case ctx (length (trace r)) of
        Some e \<Rightarrow> Done (Inl (Extern e), r1)
      | None \<Rightarrow>
          (case ReadString NL r1 of
             (Inl e, r2) \<Rightarrow> Done (Inl (Extern e), r2)
           | (Inr raw, r2) \<Rightarrow>
               let line = TrimSpace raw in
               if line = [] then
                 (case message r2 of
                    None \<Rightarrow> Done (Inl EmptyMessage, r2)
                  | Some msg \<Rightarrow> Done (Inr msg, r2\<lparr>message := None\<rparr>))
               else
                 (case message r2 of
                    None \<Rightarrow>
                      (case parseHeader line (r2\<lparr>message := Some zeroMessage\<rparr>) of
                         Panicked \<Rightarrow> Panicked
                       | Done (Some err, r3) \<Rightarrow> Done (Inl err, r3)
                       | Done (None, r3) \<Rightarrow> ReadMessage ctx r3)
                  | Some _ \<Rightarrow>
                      (case parseField line r2 of
                         Panicked \<Rightarrow> Panicked
                       | Done (Some err, r3) \<Rightarrow> Done (Inl err, r3)
                       | Done (None, r3) \<Rightarrow> ReadMessage ctx r3))))"
  by pat_completeness auto
termination
  apply (relation "measure (\<lambda>(ctx, r). length (input r))")
    apply simp
   apply (auto dest!: ReadString_shorter [OF sym] parseHeader_input)[1]
  apply (auto dest!: ReadString_shorter [OF sym] parseField_input)
  done

declare ReadMessage.simps [simp del]

subsection \<open>Lines, and what a line says\<close>

text \<open>
  The notions the properties of the reader are stated in. A line, as \<^verbatim>\<open>ReadString\<close>
  returns it, ends with its newline and has no other.
\<close>

definition isLine :: "string \<Rightarrow> bool" where
  "isLine raw = (raw \<noteq> [] \<and> last raw = NL \<and> NL \<notin> set (butlast raw))"

text \<open>
  The header \<^verbatim>\<open><code> <description>\<close>: the first space-separated token of the
  trimmed line, and the trimmed remainder after that space.
\<close>

definition headerToken :: "string \<Rightarrow> string" where
  "headerToken raw = TrimSpace (takeWhile (\<lambda>c. c \<noteq> SP) (TrimSpace raw))"

definition headerRest :: "string \<Rightarrow> string" where
  "headerRest raw = TrimSpace (tl (dropWhile (\<lambda>c. c \<noteq> SP) (TrimSpace raw)))"

text \<open>
  The field \<^verbatim>\<open><key>: <value>\<close>: the trimmed parts before and after the first colon
  of the trimmed line.
\<close>

definition fieldKey :: "string \<Rightarrow> string" where
  "fieldKey raw = TrimSpace (takeWhile (\<lambda>c. c \<noteq> COLON) (TrimSpace raw))"

definition fieldValue :: "string \<Rightarrow> string" where
  "fieldValue raw = TrimSpace (tl (dropWhile (\<lambda>c. c \<noteq> COLON) (TrimSpace raw)))"

text \<open>
  The map of a message once it is made (empty for the nil map), and the message with the
  value of one more field line appended to the values of its key.
\<close>

definition madeFields :: "Message \<Rightarrow> (string \<rightharpoonup> string list)" where
  "madeFields m = (case fields' m of None \<Rightarrow> Map.empty | Some f \<Rightarrow> f)"

definition addField :: "Message \<Rightarrow> string \<Rightarrow> Message" where
  "addField m raw =
     m\<lparr>fields' := Some ((madeFields m)(fieldKey raw \<mapsto> fieldValues m (fieldKey raw) @ [fieldValue raw]))\<rparr>"

text \<open>The error a malformed header line gets, and the one a malformed field line gets.\<close>

definition headerError :: "string \<Rightarrow> 'x error" where
  "headerError raw =
     (if SP \<notin> set (TrimSpace raw) then HeaderParts (TrimSpace raw) else HeaderCode (TrimSpace raw))"

definition fieldError :: "string \<Rightarrow> 'x error" where
  "fieldError raw =
     (if COLON \<notin> set (TrimSpace raw) then FieldParts (TrimSpace raw) else FieldEmpty (TrimSpace raw))"

text \<open>
  A well-formed header line, and the message as it stands once the header is parsed.
  "Integer" is what \<^verbatim>\<open>strconv.Atoi\<close> accepts.
\<close>

definition headerLine :: "string \<Rightarrow> bool" where
  "headerLine raw = (isLine raw \<and> SP \<in> set (TrimSpace raw) \<and> Atoi (headerToken raw) \<noteq> None)"

definition headerMessage :: "string \<Rightarrow> Message" where
  "headerMessage raw =
     \<lparr>code = (case Atoi (headerToken raw) of None \<Rightarrow> 0 | Some c \<Rightarrow> c),
      description = headerRest raw, fields' = None\<rparr>"

text \<open>A well-formed field line; a blank line.\<close>

definition fieldLine :: "string \<Rightarrow> bool" where
  "fieldLine raw =
     (isLine raw \<and> COLON \<in> set (TrimSpace raw) \<and> fieldKey raw \<noteq> [] \<and> fieldValue raw \<noteq> [])"

definition blankLine :: "string \<Rightarrow> bool" where
  "blankLine raw = (isLine raw \<and> TrimSpace raw = [])"

text \<open>The reader once it has polled the context and read one line, \<open>rest\<close> being what follows.\<close>

definition afterLine :: "'x MessageReader \<Rightarrow> string \<Rightarrow> 'x MessageReader" where
  "afterLine r rest = r\<lparr>input := rest, trace := trace r @ [Poll, ReadOk]\<rparr>"

text \<open>The reader once it has polled and read \<open>n\<close> lines in a row.\<close>

definition afterLines :: "'x MessageReader \<Rightarrow> nat \<Rightarrow> string \<Rightarrow> 'x MessageReader" where
  "afterLines r n rest =
     r\<lparr>input := rest, trace := trace r @ concat (replicate n [Poll, ReadOk])\<rparr>"

text \<open>The message with the values of several field lines appended, in their order.\<close>

definition addFields :: "Message \<Rightarrow> string list \<Rightarrow> Message" where
  "addFields m fs = foldl addField m fs"

text \<open>Whether the message's map has the key.\<close>

definition hasKey :: "Message \<Rightarrow> string \<Rightarrow> bool" where
  "hasKey m key = (case fields' m of None \<Rightarrow> False | Some f \<Rightarrow> f key \<noteq> None)"

text \<open>
  A decimal integer, as written: an optional sign, then digits and nothing else.
\<close>

definition isInteger :: "string \<Rightarrow> bool" where
  "isInteger s =
     (case s of
        [] \<Rightarrow> False
      | c # cs \<Rightarrow>
          let ds = (if c = CHR ''-'' \<or> c = CHR ''+'' then cs else s)
          in ds \<noteq> [] \<and> list_all isDigit ds)"

text \<open>
  Modelled from the spec: the classes of errors (the code makes its errors with
  \<^verbatim>\<open>errors.New\<close> and \<^verbatim>\<open>fmt.Errorf\<close> and has no classes). A malformed-header and a malformed-field error
  are the ones whose text starts with \<^verbatim>\<open>malformed header\<close> and \<^verbatim>\<open>malformed field\<close>.
  The protocol-format errors (malformed header, malformed field, blank-line sequencing) are
  the errors the reader makes itself, as opposed to those it passes on.
\<close>

definition malformedHeader :: "'x error \<Rightarrow> bool" where
  "malformedHeader e = (case e of HeaderParts _ \<Rightarrow> True | HeaderCode _ \<Rightarrow> True | _ \<Rightarrow> False)"

definition malformedField :: "'x error \<Rightarrow> bool" where
  "malformedField e = (case e of FieldParts _ \<Rightarrow> True | FieldEmpty _ \<Rightarrow> True | _ \<Rightarrow> False)"

definition ProtocolFormat :: "'x error \<Rightarrow> bool" where
  "ProtocolFormat e = (case e of Extern _ \<Rightarrow> False | _ \<Rightarrow> True)"

text \<open>
  The events of one call that starts at instant \<open>t\<close>: a poll before each read and
  nothing else; every poll that a read follows found the context not cancelled; a poll
  that finds it cancelled is the last event.
\<close>

fun callEvents :: "'x Context \<Rightarrow> nat \<Rightarrow> event list \<Rightarrow> bool" where
  "callEvents ctx t [Poll] = (ctx t \<noteq> None)"
| "callEvents ctx t [Poll, ReadFail] = (ctx t = None)"
| "callEvents ctx t (Poll # ReadOk # es) = (ctx t = None \<and> (es = [] \<or> callEvents ctx (t + 2) es))"
| "callEvents ctx t es = False"

text \<open>A caller that calls \<open>ReadMessage\<close> \<open>n\<close> times in a row, and what it is returned.\<close>

fun ReadMessages :: "'x Context \<Rightarrow> nat \<Rightarrow> 'x MessageReader \<Rightarrow> ('x error + Message) list" where
  "ReadMessages ctx 0 r = []"
| "ReadMessages ctx (Suc n) r =
     (case ReadMessage ctx r of
        Panicked \<Rightarrow> []
      | Done (res, r') \<Rightarrow> res # ReadMessages ctx n r')"

text \<open>
  Trimming, said without the library: \<open>t\<close> is \<open>s\<close> less some white-space runes at its
  front and some at its back, and \<open>t\<close> neither starts nor ends with a white-space rune.
\<close>

definition trimmed :: "string \<Rightarrow> bool" where
  "trimmed t =
     (\<not> list_ex (\<lambda>e. prefix e t) whiteSpace \<and> \<not> list_ex (\<lambda>e. suffix e t) whiteSpace)"

definition trimOf :: "string \<Rightarrow> string \<Rightarrow> bool" where
  "trimOf s t =
     (\<exists>ls rs. list_all (\<lambda>e. e \<in> set whiteSpace) ls \<and> list_all (\<lambda>e. e \<in> set whiteSpace) rs
        \<and> s = concat ls @ t @ concat rs \<and> trimmed t)"

text \<open>
  Two facts of UTF-8 the white-space runes share: the bytes after the first are continuation
  bytes (\<^verbatim>\<open>10xxxxxx\<close>) and the first is not, and the first byte tells the length.
\<close>

definition continuation :: "char \<Rightarrow> bool" where
  "continuation c = ((of_char c :: nat) div 64 = 2)"

definition width :: "char \<Rightarrow> nat" where
  "width c = (if c = CHR 0xC2 then 2 else if c \<in> set [CHR 0xE1, CHR 0xE2, CHR 0xE3] then 3 else 1)"

text \<open>
  The value of a decimal integer as written: each digit times its power of ten, negated
  after a minus sign. An integer fits \<^verbatim>\<open>int\<close> when it lies in \<open>-2\<^sup>6\<^sup>3 .. 2\<^sup>6\<^sup>3 - 1\<close>.
\<close>

fun decimal :: "string \<Rightarrow> int" where
  "decimal [] = 0"
| "decimal (d # ds) = (of_char d - 48) * 10 ^ length ds + decimal ds"

definition integerValue :: "string \<Rightarrow> int" where
  "integerValue s =
     (case s of
        [] \<Rightarrow> 0
      | c # cs \<Rightarrow>
          if c = CHR ''-'' then - decimal cs else if c = CHR ''+'' then decimal cs else decimal s)"

definition fitsInt :: "int \<Rightarrow> bool" where
  "fitsInt v = (- (2 ^ 63) \<le> v \<and> v < 2 ^ 63)"

text \<open>\<^verbatim>\<open>context.Background()\<close>: never cancelled.\<close>

definition Background :: "'x Context" where
  "Background t = None"

text \<open>
  A header line \<^verbatim>\<open><integer code> <description>\<close> with code \<open>c\<close> and description
  \<open>d\<close>: the trimmed line splits at its first space, the part before it trims to an
  integer of value \<open>c\<close>, the part after it trims to \<open>d\<close>. A field line
  \<^verbatim>\<open><key>: <value>\<close> with key \<open>k\<close> and value \<open>v\<close>: the trimmed line splits at its first
  colon, the parts trim to \<open>k\<close> and \<open>v\<close>, neither empty.
\<close>

definition headerOf :: "string \<Rightarrow> int \<Rightarrow> string \<Rightarrow> bool" where
  "headerOf raw c d =
     (\<exists>line p0 p1 tok. trimOf raw line \<and> line = p0 @ SP # p1 \<and> SP \<notin> set p0
        \<and> trimOf p0 tok \<and> isInteger tok \<and> c = integerValue tok \<and> trimOf p1 d)"

definition fieldOf :: "string \<Rightarrow> string \<Rightarrow> string \<Rightarrow> bool" where
  "fieldOf raw k v =
     (\<exists>line p0 p1. trimOf raw line \<and> line = p0 @ COLON # p1 \<and> COLON \<notin> set p0
        \<and> trimOf p0 k \<and> trimOf p1 v \<and> k \<noteq> [] \<and> v \<noteq> [])"

text \<open>A non-blank line that does not parse as a header; one that does not parse as a field.\<close>

definition badHeader :: "string \<Rightarrow> bool" where
  "badHeader raw = (SP \<notin> set (TrimSpace raw) \<or> Atoi (headerToken raw) = None)"

definition badField :: "string \<Rightarrow> bool" where
  "badField raw =
     (COLON \<notin> set (TrimSpace raw) \<or> fieldKey raw = [] \<or> fieldValue raw = [])"

section \<open>Properties\<close>

subsection \<open>Trimming and splitting\<close>

lemma leadingSpace_TrimLeft: "leadingSpace (TrimLeft s) = 0"
  by (induction s rule: TrimLeft.induct) (subst TrimLeft.simps, simp)

lemma trailingSpace_TrimRight: "trailingSpace (TrimRight s) = 0"
  by (induction s rule: TrimRight.induct) (subst TrimRight.simps, simp)

lemma TrimLeft_id: "leadingSpace s = 0 \<Longrightarrow> TrimLeft s = s"
  by (subst TrimLeft.simps) simp

lemma TrimRight_id: "trailingSpace s = 0 \<Longrightarrow> TrimRight s = s"
  by (subst TrimRight.simps) simp

lemma TrimRight_prefix: "prefix (TrimRight s) s"
proof (induction s rule: TrimRight.induct)
  case (1 s)
  show ?case
  proof (cases "trailingSpace s = 0")
    case True
    then show ?thesis by (simp add: TrimRight_id)
  next
    case False
    have "prefix (TrimRight (take (length s - trailingSpace s) s)) (take (length s - trailingSpace s) s)"
      using 1 False by simp
    moreover have "prefix (take (length s - trailingSpace s) s) s"
      by (rule take_is_prefix)
    ultimately have "prefix (TrimRight (take (length s - trailingSpace s) s)) s"
      by (rule prefix_order.trans)
    then show ?thesis using False by (subst TrimRight.simps) simp
  qed
qed

lemma whiteSpace_nonempty: "e \<in> set whiteSpace \<Longrightarrow> e \<noteq> []"
  by (auto simp: whiteSpace_def)

lemma leadingSpace_0_iff: "leadingSpace s = 0 \<longleftrightarrow> (\<forall>e \<in> set whiteSpace. \<not> prefix e s)"
proof (cases "find (\<lambda>e. prefix e s) whiteSpace")
  case None
  then have "\<forall>e \<in> set whiteSpace. \<not> prefix e s"
    by (simp add: find_None_iff)
  with None show ?thesis by (simp add: leadingSpace_def)
next
  case (Some e)
  then have "e \<in> set whiteSpace" and "prefix e s"
    by (auto simp: find_Some_iff)
  then show ?thesis using Some whiteSpace_nonempty [of e]
    by (auto simp: leadingSpace_def)
qed

lemma leadingSpace_prefix: "prefix t s \<Longrightarrow> leadingSpace s = 0 \<Longrightarrow> leadingSpace t = 0"
  unfolding leadingSpace_0_iff by (meson prefix_order.trans)

lemma TrimSpace_idem: "TrimSpace (TrimSpace s) = TrimSpace s"
proof -
  have "leadingSpace (TrimRight (TrimLeft s)) = 0"
    by (rule leadingSpace_prefix [OF TrimRight_prefix leadingSpace_TrimLeft])
  then have "TrimLeft (TrimRight (TrimLeft s)) = TrimRight (TrimLeft s)"
    by (rule TrimLeft_id)
  then show ?thesis
    by (simp add: TrimSpace_def TrimRight_id trailingSpace_TrimRight)
qed

lemma SplitN_2:
  "SplitN s sep 2 =
     (if sep \<in> set s then [takeWhile (\<lambda>c. c \<noteq> sep) s, tl (dropWhile (\<lambda>c. c \<noteq> sep) s)] else [s])"
  by (simp add: numeral_2_eq_2)

text \<open>\<open>TrimSpace\<close> is trimming: \<open>trimOf s t\<close> holds of \<open>t = TrimSpace s\<close> and of no other.\<close>

lemma whiteSpace_shape:
  "e \<in> set whiteSpace \<Longrightarrow>
   e \<noteq> [] \<and> \<not> continuation (hd e) \<and> list_all continuation (tl e) \<and> length e = width (hd e)"
  by (auto simp: whiteSpace_def continuation_def width_def)

lemma whiteSpace_prefix_free:
  assumes "e \<in> set whiteSpace" and "e' \<in> set whiteSpace" and "prefix e e'"
  shows "e = e'"
proof -
  from assms(3) obtain z where z: "e' = e @ z" by (auto simp: prefix_def)
  have "e \<noteq> []" using whiteSpace_shape [OF assms(1)] by simp
  then have "hd e' = hd e" using z by simp
  then have "length e' = length e"
    using whiteSpace_shape [OF assms(1)] whiteSpace_shape [OF assms(2)] by simp
  then show ?thesis using z by simp
qed

lemma whiteSpace_split:
  assumes "e \<in> set whiteSpace" and "e = t @ u" and "t \<noteq> []" and "u \<noteq> []"
  shows "continuation (hd u)"
proof -
  have "hd u \<in> set (tl e)" using assms(2,3,4) by (cases t; cases u) auto
  then show ?thesis using whiteSpace_shape [OF assms(1)] by (auto simp: list_all_iff)
qed

lemma whiteSpace_suffix_free:
  assumes "e \<in> set whiteSpace" and "e' \<in> set whiteSpace" and "suffix e e'"
  shows "e = e'"
proof (rule ccontr)
  assume ne: "e \<noteq> e'"
  from assms(3) obtain z where z: "e' = z @ e" by (auto simp: suffix_def)
  have "z \<noteq> []" using ne z by auto
  moreover have "e \<noteq> []" using whiteSpace_shape [OF assms(1)] by simp
  ultimately have "continuation (hd e)" using whiteSpace_split [OF assms(2) z] by simp
  then show False using whiteSpace_shape [OF assms(1)] by simp
qed

lemma trailingSpace_0_iff: "trailingSpace s = 0 \<longleftrightarrow> (\<forall>e \<in> set whiteSpace. \<not> suffix e s)"
proof (cases "find (\<lambda>e. suffix e s) whiteSpace")
  case None
  then have "\<forall>e \<in> set whiteSpace. \<not> suffix e s"
    by (simp add: find_None_iff)
  with None show ?thesis by (simp add: trailingSpace_def)
next
  case (Some e)
  then have "e \<in> set whiteSpace" and "suffix e s"
    by (auto simp: find_Some_iff)
  then show ?thesis using Some whiteSpace_nonempty [of e]
    by (auto simp: trailingSpace_def)
qed

lemma trimmed_iff: "trimmed t \<longleftrightarrow> leadingSpace t = 0 \<and> trailingSpace t = 0"
  by (simp add: trimmed_def leadingSpace_0_iff trailingSpace_0_iff list_ex_iff)

lemma leadingSpace_code:
  assumes "e \<in> set whiteSpace"
  shows "leadingSpace (e @ v) = length e"
proof (cases "find (\<lambda>x. prefix x (e @ v)) whiteSpace")
  case None
  moreover have "prefix e (e @ v)" by simp
  ultimately show ?thesis using assms by (auto simp: find_None_iff)
next
  case (Some e')
  then have e': "e' \<in> set whiteSpace" "prefix e' (e @ v)"
    by (auto simp: find_Some_iff)
  have "prefix e (e @ v)" by simp
  with e'(2) have "prefix e' e \<or> prefix e e'" by (rule prefix_same_cases)
  then have "e' = e"
    using whiteSpace_prefix_free [OF assms e'(1)] whiteSpace_prefix_free [OF e'(1) assms] by auto
  then show ?thesis using Some by (simp add: leadingSpace_def)
qed

lemma trailingSpace_code:
  assumes "e \<in> set whiteSpace"
  shows "trailingSpace (v @ e) = length e"
proof (cases "find (\<lambda>x. suffix x (v @ e)) whiteSpace")
  case None
  moreover have "suffix e (v @ e)" by (simp add: suffix_def)
  ultimately show ?thesis using assms by (auto simp: find_None_iff)
next
  case (Some e')
  then have e': "e' \<in> set whiteSpace" "suffix e' (v @ e)"
    by (auto simp: find_Some_iff)
  have "suffix e (v @ e)" by (simp add: suffix_def)
  with e'(2) have "suffix e' e \<or> suffix e e'" by (rule suffix_same_cases)
  then have "e' = e"
    using whiteSpace_suffix_free [OF assms e'(1)] whiteSpace_suffix_free [OF e'(1) assms] by auto
  then show ?thesis using Some by (simp add: trailingSpace_def)
qed

lemma TrimLeft_Nil [simp]: "TrimLeft [] = []"
  using leadingSpace_le [of "[]"] by (simp add: TrimLeft_id)

lemma TrimRight_Nil [simp]: "TrimRight [] = []"
  using trailingSpace_le [of "[]"] by (simp add: TrimRight_id)

lemma TrimLeft_code: "e \<in> set whiteSpace \<Longrightarrow> TrimLeft (e @ v) = TrimLeft v"
  using whiteSpace_nonempty [of e] by (subst TrimLeft.simps) (simp add: leadingSpace_code)

lemma TrimRight_code: "e \<in> set whiteSpace \<Longrightarrow> TrimRight (v @ e) = TrimRight v"
  using whiteSpace_nonempty [of e] by (subst TrimRight.simps) (simp add: trailingSpace_code)

lemma TrimLeft_concat:
  "list_all (\<lambda>e. e \<in> set whiteSpace) ls \<Longrightarrow> TrimLeft (concat ls @ v) = TrimLeft v"
  by (induction ls) (simp_all add: TrimLeft_code)

lemma TrimRight_concat:
  "list_all (\<lambda>e. e \<in> set whiteSpace) rs \<Longrightarrow> TrimRight (v @ concat rs) = TrimRight v"
proof (induction rs rule: rev_induct)
  case Nil
  show ?case by simp
next
  case (snoc e rs)
  then have e: "e \<in> set whiteSpace" and rs: "list_all (\<lambda>e. e \<in> set whiteSpace) rs" by simp_all
  have "TrimRight (v @ concat (rs @ [e])) = TrimRight ((v @ concat rs) @ e)" by simp
  also have "\<dots> = TrimRight (v @ concat rs)" using e by (rule TrimRight_code)
  also have "\<dots> = TrimRight v" using rs by (rule snoc.IH)
  finally show ?case .
qed

lemma concat_codes_hd:
  assumes "list_all (\<lambda>e. e \<in> set whiteSpace) rs" and "concat rs \<noteq> []"
  shows "\<not> continuation (hd (concat rs))"
proof (cases rs)
  case Nil
  then show ?thesis using assms(2) by simp
next
  case (Cons e es)
  then have e: "e \<in> set whiteSpace" using assms(1) by simp
  then have "e \<noteq> []" by (rule whiteSpace_nonempty)
  then have "hd (concat rs) = hd e" using Cons by simp
  then show ?thesis using whiteSpace_shape [OF e] by simp
qed

lemma leadingSpace_before_codes:
  assumes "t \<noteq> []" and "leadingSpace t = 0" and "list_all (\<lambda>e. e \<in> set whiteSpace) rs"
  shows "leadingSpace (t @ concat rs) = 0"
  unfolding leadingSpace_0_iff
proof (intro ballI notI)
  fix e
  assume e: "e \<in> set whiteSpace" and p: "prefix e (t @ concat rs)"
  have "\<not> prefix e t" using assms(2) e by (simp add: leadingSpace_0_iff)
  with p obtain us where us: "e = t @ us" "prefix us (concat rs)"
    by (auto simp: prefix_append)
  have "us \<noteq> []" using us(1) \<open>\<not> prefix e t\<close> by auto
  then have c: "continuation (hd us)" using whiteSpace_split [OF e us(1) assms(1)] by simp
  from us(2) obtain zs where "concat rs = us @ zs" by (auto simp: prefix_def)
  with \<open>us \<noteq> []\<close> have "concat rs \<noteq> []" and "hd (concat rs) = hd us"
    by simp_all
  then show False using concat_codes_hd [OF assms(3)] c by simp
qed

lemma trimOf_TrimSpace:
  assumes "trimOf s t"
  shows "TrimSpace s = t"
proof -
  from assms obtain ls rs where ls: "list_all (\<lambda>e. e \<in> set whiteSpace) ls"
    and rs: "list_all (\<lambda>e. e \<in> set whiteSpace) rs"
    and s: "s = concat ls @ t @ concat rs" and t: "leadingSpace t = 0" "trailingSpace t = 0"
    by (auto simp: trimOf_def trimmed_iff)
  have 1: "TrimLeft s = TrimLeft (t @ concat rs)"
    unfolding s using ls by (rule TrimLeft_concat)
  show ?thesis
  proof (cases "t = []")
    case True
    have "TrimLeft (concat rs @ []) = TrimLeft []" using rs by (rule TrimLeft_concat)
    then have "TrimLeft s = []" using 1 True by simp
    then show ?thesis using True by (simp add: TrimSpace_def)
  next
    case False
    have "TrimLeft (t @ concat rs) = t @ concat rs"
      using leadingSpace_before_codes [OF False t(1) rs] by (rule TrimLeft_id)
    then have "TrimSpace s = TrimRight (t @ concat rs)" using 1 by (simp add: TrimSpace_def)
    also have "\<dots> = TrimRight t" using rs by (rule TrimRight_concat)
    also have "\<dots> = t" using t(2) by (rule TrimRight_id)
    finally show ?thesis .
  qed
qed

lemma leadingSpace_take:
  assumes "leadingSpace s \<noteq> 0"
  shows "take (leadingSpace s) s \<in> set whiteSpace"
proof (cases "find (\<lambda>e. prefix e s) whiteSpace")
  case None
  then show ?thesis using assms by (simp add: leadingSpace_def)
next
  case (Some e)
  then have "e \<in> set whiteSpace" and "prefix e s" by (auto simp: find_Some_iff)
  then show ?thesis using Some by (auto simp: leadingSpace_def prefix_def)
qed

lemma trailingSpace_drop:
  assumes "trailingSpace s \<noteq> 0"
  shows "drop (length s - trailingSpace s) s \<in> set whiteSpace"
proof (cases "find (\<lambda>e. suffix e s) whiteSpace")
  case None
  then show ?thesis using assms by (simp add: trailingSpace_def)
next
  case (Some e)
  then have "e \<in> set whiteSpace" and "suffix e s" by (auto simp: find_Some_iff)
  then show ?thesis using Some by (auto simp: trailingSpace_def suffix_def)
qed

lemma TrimLeft_codes:
  "\<exists>ls. list_all (\<lambda>e. e \<in> set whiteSpace) ls \<and> s = concat ls @ TrimLeft s"
proof (induction s rule: TrimLeft.induct)
  case (1 s)
  show ?case
  proof (cases "leadingSpace s = 0")
    case True
    then have "list_all (\<lambda>e. e \<in> set whiteSpace) [] \<and> s = concat [] @ TrimLeft s"
      by (simp add: TrimLeft_id)
    then show ?thesis by blast
  next
    case False
    let ?e = "take (leadingSpace s) s" and ?v = "drop (leadingSpace s) s"
    from 1 [OF False] obtain ls where ls: "list_all (\<lambda>e. e \<in> set whiteSpace) ls"
      "?v = concat ls @ TrimLeft ?v" by blast
    have "TrimLeft s = TrimLeft ?v" using False by (subst TrimLeft.simps) simp
    moreover have "s = ?e @ ?v" by simp
    ultimately have "s = concat (?e # ls) @ TrimLeft s" using ls(2) by simp
    moreover have "list_all (\<lambda>e. e \<in> set whiteSpace) (?e # ls)"
      using ls(1) leadingSpace_take [OF False] by simp
    ultimately show ?thesis by blast
  qed
qed

lemma TrimRight_codes:
  "\<exists>rs. list_all (\<lambda>e. e \<in> set whiteSpace) rs \<and> s = TrimRight s @ concat rs"
proof (induction s rule: TrimRight.induct)
  case (1 s)
  show ?case
  proof (cases "trailingSpace s = 0")
    case True
    then have "list_all (\<lambda>e. e \<in> set whiteSpace) [] \<and> s = TrimRight s @ concat []"
      by (simp add: TrimRight_id)
    then show ?thesis by blast
  next
    case False
    let ?e = "drop (length s - trailingSpace s) s" and ?v = "take (length s - trailingSpace s) s"
    from 1 [OF False] obtain rs where rs: "list_all (\<lambda>e. e \<in> set whiteSpace) rs"
      "?v = TrimRight ?v @ concat rs" by blast
    have "TrimRight s = TrimRight ?v" using False by (subst TrimRight.simps) simp
    moreover have "s = ?v @ ?e" by simp
    ultimately have "s = TrimRight s @ concat (rs @ [?e])" using rs(2)
      by (metis append_assoc append_Nil2 concat.simps concat_append)
    moreover have "list_all (\<lambda>e. e \<in> set whiteSpace) (rs @ [?e])"
      using rs(1) trailingSpace_drop [OF False] by simp
    ultimately show ?thesis by blast
  qed
qed

lemma TrimSpace_trimOf: "trimOf s (TrimSpace s)"
proof -
  obtain ls where ls: "list_all (\<lambda>e. e \<in> set whiteSpace) ls" "s = concat ls @ TrimLeft s"
    using TrimLeft_codes by blast
  obtain rs where rs: "list_all (\<lambda>e. e \<in> set whiteSpace) rs"
    "TrimLeft s = TrimRight (TrimLeft s) @ concat rs"
    using TrimRight_codes by blast
  have "s = concat ls @ TrimSpace s @ concat rs"
    using ls(2) rs(2) by (simp add: TrimSpace_def)
  moreover have "leadingSpace (TrimSpace s) = 0"
    unfolding TrimSpace_def
    by (rule leadingSpace_prefix [OF TrimRight_prefix leadingSpace_TrimLeft])
  moreover have "trailingSpace (TrimSpace s) = 0"
    unfolding TrimSpace_def by (rule trailingSpace_TrimRight)
  ultimately show ?thesis using ls(1) rs(1) unfolding trimOf_def trimmed_iff by blast
qed

lemma trimOf_iff: "trimOf s t \<longleftrightarrow> t = TrimSpace s"
  using trimOf_TrimSpace [of s t] TrimSpace_trimOf [of s] by auto

subsection \<open>One line at a time\<close>

lemma isLine_snoc: "isLine raw \<Longrightarrow> \<exists>l. raw = l @ [NL] \<and> NL \<notin> set l"
  using append_butlast_last_id [of raw] by (auto simp: isLine_def intro!: exI [of _ "butlast raw"])

lemma isLine_snocI: "NL \<notin> set l \<Longrightarrow> isLine (l @ [NL])"
  by (simp add: isLine_def)

lemma takeWhile_delim: "d \<notin> set l \<Longrightarrow> takeWhile (\<lambda>c. c \<noteq> d) (l @ d # rest) = l"
  by (induction l) auto

lemma dropWhile_delim: "d \<notin> set l \<Longrightarrow> dropWhile (\<lambda>c. c \<noteq> d) (l @ d # rest) = d # rest"
  by (induction l) auto

lemma ReadString_line:
  assumes "isLine raw" and "input r = raw @ rest"
  shows "ReadString NL r = (Inr raw, r\<lparr>input := rest, trace := trace r @ [ReadOk]\<rparr>)"
proof -
  from assms(1) obtain l where raw: "raw = l @ [NL]" and l: "NL \<notin> set l"
    using isLine_snoc by blast
  have i: "input r = l @ NL # rest" using assms(2) raw by simp
  have "takeWhile (\<lambda>c. c \<noteq> NL) (input r) = l"
    using l unfolding i by (rule takeWhile_delim)
  moreover have "dropWhile (\<lambda>c. c \<noteq> NL) (input r) = NL # rest"
    using l unfolding i by (rule dropWhile_delim)
  moreover have "NL \<in> set (input r)" unfolding i by simp
  ultimately show ?thesis by (simp add: ReadString_def raw)
qed

lemma ReadString_fail:
  "NL \<notin> set (input r) \<Longrightarrow>
   ReadString NL r = (Inl (inputErr r), r\<lparr>input := [], trace := trace r @ [ReadFail]\<rparr>)"
  by (simp add: ReadString_def)

lemma parseHeader_fresh:
  assumes "TrimSpace raw \<noteq> []"
  shows "parseHeader (TrimSpace raw) (r\<lparr>message := Some zeroMessage\<rparr>) =
     Done (if SP \<notin> set (TrimSpace raw)
           then (Some (HeaderParts (TrimSpace raw)), r\<lparr>message := Some zeroMessage\<rparr>)
           else (case Atoi (headerToken raw) of
                   None \<Rightarrow> (Some (HeaderCode (TrimSpace raw)), r\<lparr>message := Some zeroMessage\<rparr>)
                 | Some c \<Rightarrow>
                     (None, r\<lparr>message :=
                        Some \<lparr>code = c, description = headerRest raw, fields' = None\<rparr>\<rparr>)))"
  using assms
  by (simp add: parseHeader_def TrimSpace_idem SplitN_2 zeroMessage_def headerToken_def
      headerRest_def split: option.splits)

lemma parseField_busy:
  assumes "TrimSpace raw \<noteq> []" and "message r = Some m"
  shows "parseField (TrimSpace raw) r =
     Done (if COLON \<notin> set (TrimSpace raw) then (Some (FieldParts (TrimSpace raw)), r)
           else if fieldKey raw = [] \<or> fieldValue raw = []
           then (Some (FieldEmpty (TrimSpace raw)),
                 r\<lparr>message := Some (m\<lparr>fields' := Some (madeFields m)\<rparr>)\<rparr>)
           else (None, r\<lparr>message := Some (addField m raw)\<rparr>))"
  using assms
  by (simp add: parseField_def TrimSpace_idem SplitN_2 fieldKey_def fieldValue_def
      madeFields_def addField_def fieldValues_def Let_def split: option.splits)

lemma ReadMessage_line:
  assumes "ctx (length (trace r)) = None" and "isLine raw" and "input r = raw @ rest"
  shows "ReadMessage ctx r =
     (let r2 = r\<lparr>input := rest, trace := trace r @ [Poll, ReadOk]\<rparr>; line = TrimSpace raw in
      if line = [] then
        (case message r of
           None \<Rightarrow> Done (Inl EmptyMessage, r2)
         | Some msg \<Rightarrow> Done (Inr msg, r2\<lparr>message := None\<rparr>))
      else
        (case message r of
           None \<Rightarrow>
             (case parseHeader line (r2\<lparr>message := Some zeroMessage\<rparr>) of
                Panicked \<Rightarrow> Panicked
              | Done (Some err, r3) \<Rightarrow> Done (Inl err, r3)
              | Done (None, r3) \<Rightarrow> ReadMessage ctx r3)
         | Some _ \<Rightarrow>
             (case parseField line r2 of
                Panicked \<Rightarrow> Panicked
              | Done (Some err, r3) \<Rightarrow> Done (Inl err, r3)
              | Done (None, r3) \<Rightarrow> ReadMessage ctx r3)))"
proof -
  have "ReadString NL (r\<lparr>trace := trace r @ [Poll]\<rparr>) =
      (Inr raw, r\<lparr>input := rest, trace := trace r @ [Poll, ReadOk]\<rparr>)"
    using ReadString_line [of raw "r\<lparr>trace := trace r @ [Poll]\<rparr>" rest] assms by simp
  then show ?thesis
    using assms(1) by (subst ReadMessage.simps) (simp add: Let_def)
qed

lemma line_exists: "NL \<in> set s \<Longrightarrow> \<exists>raw rest. s = raw @ rest \<and> isLine raw"
proof -
  assume "NL \<in> set s"
  then obtain l rest where "s = l @ NL # rest" and "NL \<notin> set l"
    by (meson split_list_first)
  then have "s = (l @ [NL]) @ rest" and "isLine (l @ [NL])"
    by (simp_all add: isLine_def)
  then show ?thesis by blast
qed

lemma TrimSpace_Nil [simp]: "TrimSpace [] = []"
  by (simp add: TrimSpace_def TrimLeft_id TrimRight_id leadingSpace_def trailingSpace_def whiteSpace_def)

lemma fieldLine_not_blank: "fieldLine raw \<Longrightarrow> TrimSpace raw \<noteq> []"
  by (auto simp: fieldLine_def)

lemma headerLine_not_blank: "headerLine raw \<Longrightarrow> TrimSpace raw \<noteq> []"
  by (auto simp: headerLine_def)

lemma ReadMessage_cancelled:
  "ctx (length (trace r)) = Some e \<Longrightarrow>
   ReadMessage ctx r = Done (Inl (Extern e), r\<lparr>trace := trace r @ [Poll]\<rparr>)"
  by (subst ReadMessage.simps) (simp add: Let_def)

lemma ReadMessage_readfail:
  "ctx (length (trace r)) = None \<Longrightarrow> NL \<notin> set (input r) \<Longrightarrow>
   ReadMessage ctx r =
     Done (Inl (Extern (inputErr r)), r\<lparr>input := [], trace := trace r @ [Poll, ReadFail]\<rparr>)"
  by (subst ReadMessage.simps) (simp add: Let_def ReadString_def)

lemma ReadMessage_blank_idle:
  assumes "ctx (length (trace r)) = None" and "isLine raw" and "input r = raw @ rest"
    and "TrimSpace raw = []" and "message r = None"
  shows "ReadMessage ctx r = Done (Inl EmptyMessage, afterLine r rest)"
  using assms by (simp add: ReadMessage_line [of ctx r raw rest, OF assms(1-3)] afterLine_def)

lemma ReadMessage_blank_busy:
  assumes "ctx (length (trace r)) = None" and "isLine raw" and "input r = raw @ rest"
    and "TrimSpace raw = []" and "message r = Some m"
  shows "ReadMessage ctx r = Done (Inr m, (afterLine r rest)\<lparr>message := None\<rparr>)"
  using assms by (simp add: ReadMessage_line [of ctx r raw rest, OF assms(1-3)] afterLine_def)

lemma ReadMessage_header_bad:
  assumes "ctx (length (trace r)) = None" and "isLine raw" and "input r = raw @ rest"
    and "TrimSpace raw \<noteq> []" and "message r = None"
    and "SP \<notin> set (TrimSpace raw) \<or> Atoi (headerToken raw) = None"
  shows "ReadMessage ctx r =
     Done (Inl (headerError raw), (afterLine r rest)\<lparr>message := Some zeroMessage\<rparr>)"
  using assms(4-6)
  by (auto simp: ReadMessage_line [of ctx r raw rest, OF assms(1-3)] afterLine_def parseHeader_fresh headerError_def)

lemma ReadMessage_header_ok:
  assumes "ctx (length (trace r)) = None" and "headerLine raw" and "input r = raw @ rest"
    and "message r = None"
  shows "ReadMessage ctx r =
     ReadMessage ctx ((afterLine r rest)\<lparr>message := Some (headerMessage raw)\<rparr>)"
proof -
  have l: "isLine raw" and nb: "TrimSpace raw \<noteq> []"
    using assms(2) by (auto simp: headerLine_def)
  show ?thesis
    using assms(2,4) nb
    by (auto simp: ReadMessage_line [of ctx r raw rest, OF assms(1) l assms(3)] afterLine_def parseHeader_fresh
        headerLine_def headerMessage_def)
qed

lemma ReadMessage_field_bad:
  assumes "ctx (length (trace r)) = None" and "isLine raw" and "input r = raw @ rest"
    and "TrimSpace raw \<noteq> []" and "message r = Some m"
    and "COLON \<notin> set (TrimSpace raw) \<or> fieldKey raw = [] \<or> fieldValue raw = []"
  shows "ReadMessage ctx r =
     Done (Inl (fieldError raw),
       (afterLine r rest)\<lparr>message :=
          Some (if COLON \<notin> set (TrimSpace raw) then m else m\<lparr>fields' := Some (madeFields m)\<rparr>)\<rparr>)"
proof -
  have "message (r\<lparr>input := rest, trace := trace r @ [Poll, ReadOk]\<rparr>) = Some m"
    using assms(5) by simp
  from parseField_busy [of raw _ m, OF assms(4) this] show ?thesis
    using assms(4-6)
    by (auto simp: ReadMessage_line [of ctx r raw rest, OF assms(1-3)] afterLine_def fieldError_def)
qed

lemma ReadMessage_field_ok:
  assumes "ctx (length (trace r)) = None" and "fieldLine raw" and "input r = raw @ rest"
    and "message r = Some m"
  shows "ReadMessage ctx r =
     ReadMessage ctx ((afterLine r rest)\<lparr>message := Some (addField m raw)\<rparr>)"
proof -
  have l: "isLine raw" and nb: "TrimSpace raw \<noteq> []"
    using assms(2) by (auto simp: fieldLine_def)
  have "message (r\<lparr>input := rest, trace := trace r @ [Poll, ReadOk]\<rparr>) = Some m"
    using assms(4) by simp
  from parseField_busy [of raw _ m, OF nb this] show ?thesis
    using assms(2,4) nb
    by (auto simp: ReadMessage_line [of ctx r raw rest, OF assms(1) l assms(3)] afterLine_def fieldLine_def)
qed

subsection \<open>Every call, round by round\<close>

text \<open>
  What a call returns is settled by the first round that returns; a round that parses its
  line hands over to the next round on the input that is left. A property of every call is
  proved by showing it of each of the eight ways a round can go.
\<close>

lemma ReadMessage_rounds [case_names cancelled readfail blank_idle blank_busy header_bad header_ok field_bad field_ok]:
  fixes ctx :: "'x Context"
  assumes cancelled: "\<And>r e. ctx (length (trace r)) = Some e \<Longrightarrow>
      P r (Done (Inl (Extern e), r\<lparr>trace := trace r @ [Poll]\<rparr>))"
    and readfail: "\<And>r. ctx (length (trace r)) = None \<Longrightarrow> NL \<notin> set (input r) \<Longrightarrow>
      P r (Done (Inl (Extern (inputErr r)), r\<lparr>input := [], trace := trace r @ [Poll, ReadFail]\<rparr>))"
    and blank_idle: "\<And>r raw rest. ctx (length (trace r)) = None \<Longrightarrow> blankLine raw \<Longrightarrow>
      input r = raw @ rest \<Longrightarrow> message r = None \<Longrightarrow>
      P r (Done (Inl EmptyMessage, afterLine r rest))"
    and blank_busy: "\<And>r raw rest m. ctx (length (trace r)) = None \<Longrightarrow> blankLine raw \<Longrightarrow>
      input r = raw @ rest \<Longrightarrow> message r = Some m \<Longrightarrow>
      P r (Done (Inr m, (afterLine r rest)\<lparr>message := None\<rparr>))"
    and header_bad: "\<And>r raw rest. ctx (length (trace r)) = None \<Longrightarrow> isLine raw \<Longrightarrow>
      input r = raw @ rest \<Longrightarrow> TrimSpace raw \<noteq> [] \<Longrightarrow> message r = None \<Longrightarrow>
      SP \<notin> set (TrimSpace raw) \<or> Atoi (headerToken raw) = None \<Longrightarrow>
      P r (Done (Inl (headerError raw), (afterLine r rest)\<lparr>message := Some zeroMessage\<rparr>))"
    and header_ok: "\<And>r raw rest. ctx (length (trace r)) = None \<Longrightarrow> headerLine raw \<Longrightarrow>
      input r = raw @ rest \<Longrightarrow> message r = None \<Longrightarrow>
      P ((afterLine r rest)\<lparr>message := Some (headerMessage raw)\<rparr>)
        (ReadMessage ctx ((afterLine r rest)\<lparr>message := Some (headerMessage raw)\<rparr>)) \<Longrightarrow>
      P r (ReadMessage ctx ((afterLine r rest)\<lparr>message := Some (headerMessage raw)\<rparr>))"
    and field_bad: "\<And>r raw rest m. ctx (length (trace r)) = None \<Longrightarrow> isLine raw \<Longrightarrow>
      input r = raw @ rest \<Longrightarrow> TrimSpace raw \<noteq> [] \<Longrightarrow> message r = Some m \<Longrightarrow>
      COLON \<notin> set (TrimSpace raw) \<or> fieldKey raw = [] \<or> fieldValue raw = [] \<Longrightarrow>
      P r (Done (Inl (fieldError raw),
        (afterLine r rest)\<lparr>message :=
          Some (if COLON \<notin> set (TrimSpace raw) then m else m\<lparr>fields' := Some (madeFields m)\<rparr>)\<rparr>))"
    and field_ok: "\<And>r raw rest m. ctx (length (trace r)) = None \<Longrightarrow> fieldLine raw \<Longrightarrow>
      input r = raw @ rest \<Longrightarrow> message r = Some m \<Longrightarrow>
      P ((afterLine r rest)\<lparr>message := Some (addField m raw)\<rparr>)
        (ReadMessage ctx ((afterLine r rest)\<lparr>message := Some (addField m raw)\<rparr>)) \<Longrightarrow>
      P r (ReadMessage ctx ((afterLine r rest)\<lparr>message := Some (addField m raw)\<rparr>))"
  shows "P r (ReadMessage ctx r)"
proof (induction "length (input r)" arbitrary: r rule: less_induct)
  case less
  show ?case
  proof (cases "ctx (length (trace r))")
    case (Some e)
    then show ?thesis
      using cancelled [of r e] by (simp add: ReadMessage_cancelled [of ctx r e])
  next
    case None
    show ?thesis
    proof (cases "NL \<in> set (input r)")
      case False
      then show ?thesis
        using readfail [of r] None by (simp add: ReadMessage_readfail [of ctx r])
    next
      case True
      then obtain raw rest where i: "input r = raw @ rest" and l: "isLine raw"
        using line_exists by blast
      have shorter: "length (input (afterLine r rest)) < length (input r)"
        using i l by (simp add: afterLine_def isLine_def)
      show ?thesis
      proof (cases "TrimSpace raw = []")
        case blank: True
        then have b: "blankLine raw" using l by (simp add: blankLine_def)
        show ?thesis
        proof (cases "message r")
          case idle: None
          show ?thesis
            using blank_idle [OF None b i idle] ReadMessage_blank_idle [of ctx r raw rest, OF None l i blank idle]
            by simp
        next
          case (Some m)
          show ?thesis
            using blank_busy [OF None b i Some] ReadMessage_blank_busy [of ctx r raw rest m, OF None l i blank Some]
            by simp
        qed
      next
        case nonblank: False
        show ?thesis
        proof (cases "message r")
          case idle: None
          show ?thesis
          proof (cases "SP \<notin> set (TrimSpace raw) \<or> Atoi (headerToken raw) = None")
            case True
            show ?thesis
              using header_bad [OF None l i nonblank idle True]
                ReadMessage_header_bad [of ctx r raw rest, OF None l i nonblank idle True]
              by simp
          next
            case False
            then have h: "headerLine raw" using l by (simp add: headerLine_def)
            let ?r3 = "(afterLine r rest)\<lparr>message := Some (headerMessage raw)\<rparr>"
            have "length (input ?r3) < length (input r)" using shorter by simp
            then have "P ?r3 (ReadMessage ctx ?r3)" by (rule less)
            then show ?thesis
              using header_ok [OF None h i idle]
                ReadMessage_header_ok [of ctx r raw rest, OF None h i idle]
              by simp
          qed
        next
          case (Some m)
          show ?thesis
          proof (cases "COLON \<notin> set (TrimSpace raw) \<or> fieldKey raw = [] \<or> fieldValue raw = []")
            case True
            show ?thesis
              using field_bad [OF None l i nonblank Some True]
                ReadMessage_field_bad [of ctx r raw rest m, OF None l i nonblank Some True]
              by simp
          next
            case False
            then have f: "fieldLine raw" using l by (simp add: fieldLine_def)
            let ?r3 = "(afterLine r rest)\<lparr>message := Some (addField m raw)\<rparr>"
            have "length (input ?r3) < length (input r)" using shorter by simp
            then have "P ?r3 (ReadMessage ctx ?r3)" by (rule less)
            then show ?thesis
              using field_ok [OF None f i Some]
                ReadMessage_field_ok [of ctx r raw rest m, OF None f i Some]
              by simp
          qed
        qed
      qed
    qed
  qed
qed

lemma ReadMessage_no_panic: "ReadMessage ctx r \<noteq> Panicked"
  by (induction r rule: ReadMessage_rounds [where ctx = ctx]) simp_all

subsection \<open>A block of lines\<close>

lemma fieldValues_addField:
  "fieldValues (addField m raw) k =
     (if k = fieldKey raw then fieldValues m k @ [fieldValue raw] else fieldValues m k)"
  by (simp add: addField_def fieldValues_def madeFields_def split: option.splits)

lemma hasKey_addField: "hasKey (addField m raw) k \<longleftrightarrow> k = fieldKey raw \<or> hasKey m k"
  by (simp add: addField_def hasKey_def madeFields_def split: option.splits)

lemma code_addField [simp]: "code (addField m raw) = code m"
  by (simp add: addField_def)

lemma description_addField [simp]: "description (addField m raw) = description m"
  by (simp add: addField_def)

lemma addFields_Nil [simp]: "addFields m [] = m"
  by (simp add: addFields_def)

lemma addFields_Cons [simp]: "addFields m (f # fs) = addFields (addField m f) fs"
  by (simp add: addFields_def)

lemma code_addFields [simp]: "code (addFields m fs) = code m"
  by (induction fs arbitrary: m) simp_all

lemma description_addFields [simp]: "description (addFields m fs) = description m"
  by (induction fs arbitrary: m) simp_all

lemma fieldValues_addFields:
  "fieldValues (addFields m fs) k =
     fieldValues m k @ map fieldValue (filter (\<lambda>f. fieldKey f = k) fs)"
  by (induction fs arbitrary: m) (auto simp: fieldValues_addField)

lemma hasKey_addFields: "hasKey (addFields m fs) k \<longleftrightarrow> hasKey m k \<or> k \<in> fieldKey ` set fs"
  by (induction fs arbitrary: m) (auto simp: hasKey_addField)

lemma concat_replicate_snoc: "concat (replicate n x) @ x = x @ concat (replicate n x)"
  by (induction n) simp_all

lemma afterLines_0: "afterLines r 0 (input r) = r"
  by (simp add: afterLines_def)

lemma afterLines_Suc:
  "afterLines ((afterLine r rest')\<lparr>message := x\<rparr>) n rest = (afterLines r (Suc n) rest)\<lparr>message := x\<rparr>"
  by (simp add: afterLines_def afterLine_def)

lemma ReadMessage_fields_skip:
  assumes alive: "\<forall>t. ctx t = None"
  shows "message r = Some m \<Longrightarrow> list_all fieldLine fs \<Longrightarrow> input r = concat fs @ rest \<Longrightarrow>
    ReadMessage ctx r =
      ReadMessage ctx ((afterLines r (length fs) rest)\<lparr>message := Some (addFields m fs)\<rparr>)"
proof (induction fs arbitrary: r m)
  case Nil
  have "(afterLines r 0 rest)\<lparr>message := Some m\<rparr> = r"
    using Nil by (simp add: afterLines_def)
  then show ?case by simp
next
  case (Cons f fs)
  let ?r1 = "(afterLine r (concat fs @ rest))\<lparr>message := Some (addField m f)\<rparr>"
  have f: "fieldLine f" and fs: "list_all fieldLine fs" using Cons.prems(2) by simp_all
  have i: "input r = f @ (concat fs @ rest)" using Cons.prems(3) by simp
  have "ReadMessage ctx r = ReadMessage ctx ?r1"
    using ReadMessage_field_ok [of ctx r f "concat fs @ rest" m] alive f i Cons.prems(1)
    by simp
  also have "\<dots> = ReadMessage ctx ((afterLines ?r1 (length fs) rest)\<lparr>message := Some (addFields (addField m f) fs)\<rparr>)"
    by (rule Cons.IH) (simp_all add: fs afterLine_def)
  also have "(afterLines ?r1 (length fs) rest)\<lparr>message := Some (addFields (addField m f) fs)\<rparr>
      = (afterLines r (length (f # fs)) rest)\<lparr>message := Some (addFields m (f # fs))\<rparr>"
    by (simp add: afterLines_Suc)
  finally show ?case .
qed

lemma ReadMessage_fields_blank:
  assumes alive: "\<forall>t. ctx t = None"
    and "message r = Some m" and "list_all fieldLine fs" and "blankLine b"
    and "input r = concat fs @ b @ rest"
  shows "ReadMessage ctx r =
      Done (Inr (addFields m fs), (afterLines r (Suc (length fs)) rest)\<lparr>message := None\<rparr>)"
proof -
  let ?r1 = "(afterLines r (length fs) (b @ rest))\<lparr>message := Some (addFields m fs)\<rparr>"
  have "ReadMessage ctx r = ReadMessage ctx ?r1"
    using ReadMessage_fields_skip [OF alive assms(2,3), of "b @ rest"] assms(5) by simp
  also have "\<dots> = Done (Inr (addFields m fs), (afterLine ?r1 rest)\<lparr>message := None\<rparr>)"
    using ReadMessage_blank_busy [of ctx ?r1 b rest "addFields m fs"] alive assms(4)
    by (simp add: blankLine_def afterLines_def)
  also have "(afterLine ?r1 rest)\<lparr>message := None\<rparr>
      = (afterLines r (Suc (length fs)) rest)\<lparr>message := None\<rparr>"
    by (simp add: afterLine_def afterLines_def concat_replicate_snoc)
  finally show ?thesis .
qed

lemma ReadMessage_block:
  assumes alive: "\<forall>t. ctx t = None"
    and "message r = None" and "headerLine h" and "list_all fieldLine fs" and "blankLine b"
    and "input r = h @ concat fs @ b @ rest"
  shows "ReadMessage ctx r =
      Done (Inr (addFields (headerMessage h) fs), afterLines r (Suc (Suc (length fs))) rest)"
proof -
  let ?r1 = "(afterLine r (concat fs @ b @ rest))\<lparr>message := Some (headerMessage h)\<rparr>"
  have "ReadMessage ctx r = ReadMessage ctx ?r1"
    using ReadMessage_header_ok [of ctx r h "concat fs @ b @ rest"] alive assms(2,3,6) by simp
  also have "\<dots> = Done (Inr (addFields (headerMessage h) fs),
      (afterLines ?r1 (Suc (length fs)) rest)\<lparr>message := None\<rparr>)"
    by (rule ReadMessage_fields_blank [OF alive _ assms(4,5)]) (simp_all add: afterLine_def)
  also have "(afterLines ?r1 (Suc (length fs)) rest)\<lparr>message := None\<rparr>
      = afterLines r (Suc (Suc (length fs))) rest"
    using assms(2) by (simp add: afterLine_def afterLines_def)
  finally show ?thesis .
qed

subsection \<open>Integers\<close>

lemma parseDigits_Some: "parseDigits ds n = Some v \<Longrightarrow> list_all isDigit ds"
  by (induction ds arbitrary: n) (auto split: if_splits)

lemma Atoi_Some_isInteger: "Atoi s = Some v \<Longrightarrow> isInteger s"
  by (cases s)
     (auto simp: Atoi_def isInteger_def Let_def split: if_splits option.splits
       dest: parseDigits_Some)

lemma not_isInteger_Atoi: "\<not> isInteger s \<Longrightarrow> Atoi s = None"
  using Atoi_Some_isInteger [of s] by (cases "Atoi s") auto

text \<open>Every integer written with at most 18 bytes fits \<^verbatim>\<open>int\<close>.\<close>

lemma digitVal_bounds: "isDigit c \<Longrightarrow> 0 \<le> digitVal c \<and> digitVal c \<le> 9"
  by (auto simp: isDigit_def digitVal_def)

lemma parseDigits_bounds:
  "list_all isDigit ds \<Longrightarrow> 0 \<le> n \<Longrightarrow>
   \<exists>v. parseDigits ds n = Some v \<and> 0 \<le> v \<and> v < (n + 1) * 10 ^ length ds"
proof (induction ds arbitrary: n)
  case Nil
  then show ?case by simp
next
  case (Cons c ds)
  then have d: "isDigit c" and ds: "list_all isDigit ds" by simp_all
  let ?n = "n * 10 + digitVal c"
  have b: "0 \<le> digitVal c" "digitVal c \<le> 9" using digitVal_bounds [OF d] by simp_all
  have n0: "0 \<le> ?n" using Cons.prems(2) b by simp
  from Cons.IH [OF ds n0] obtain v where v: "parseDigits ds ?n = Some v" "0 \<le> v"
    "v < (?n + 1) * 10 ^ length ds" by blast
  have "?n + 1 \<le> (n + 1) * 10" using b by simp
  then have "(?n + 1) * 10 ^ length ds \<le> ((n + 1) * 10) * 10 ^ length ds"
    by (rule mult_right_mono) simp
  also have "\<dots> = (n + 1) * 10 ^ length (c # ds)" by simp
  finally have "v < (n + 1) * 10 ^ length (c # ds)" using v(3) by linarith
  then show ?case using v(1,2) d by simp
qed

lemma pow10_le: "n \<le> 18 \<Longrightarrow> (10::int) ^ n \<le> 10 ^ 18"
  by (rule power_increasing) simp_all

lemma Atoi_accepts:
  assumes "isInteger s" and "length s \<le> 18"
  shows "Atoi s \<noteq> None"
proof -
  obtain c cs where s: "s = c # cs" using assms(1) by (cases s) (simp_all add: isInteger_def)
  let ?ds = "if c = CHR ''-'' \<or> c = CHR ''+'' then cs else s"
  have ds: "?ds \<noteq> []" "list_all isDigit ?ds"
    using assms(1) unfolding s isInteger_def by (simp_all add: Let_def)
  have len: "length ?ds \<le> 18" using assms(2) s by simp
  from parseDigits_bounds [OF ds(2), of 0] obtain v where v: "parseDigits ?ds 0 = Some v"
    "0 \<le> v" "v < 10 ^ length ?ds" by auto
  have "v < 10 ^ 18" using v(3) pow10_le [OF len] by linarith
  then have "- (2 ^ 63) \<le> v \<and> v < 2 ^ 63 \<and> - (2 ^ 63) \<le> - v \<and> - v < 2 ^ 63"
    using v(2) by simp
  then show ?thesis
    using v(1) ds(1) unfolding s Atoi_def by (simp add: Let_def intSize_def)
qed

subsection \<open>The events of a call\<close>

lemma callEvents_nonempty: "callEvents ctx t es \<Longrightarrow> es \<noteq> []"
  by auto

lemma ReadMessage_events:
  fixes r :: "'x MessageReader"
  assumes "ReadMessage ctx r = Done (res, r')"
  shows "\<exists>evs. trace r' = trace r @ evs
    \<and> callEvents ctx (length (trace r)) evs
    \<and> (last evs = Poll \<longrightarrow> (\<exists>e. ctx (length (trace r') - 1) = Some e \<and> res = Inl (Extern e)))
    \<and> (ReadFail \<in> set evs \<longrightarrow> res = Inl (Extern (inputErr r)))"
proof -
  define Q :: "'x MessageReader \<Rightarrow> (('x error + Message) \<times> 'x MessageReader) exec \<Rightarrow> bool"
    where "Q r out \<longleftrightarrow> (\<forall>res r'. out = Done (res, r') \<longrightarrow>
      (\<exists>evs. trace r' = trace r @ evs
        \<and> callEvents ctx (length (trace r)) evs
        \<and> (last evs = Poll \<longrightarrow> (\<exists>e. ctx (length (trace r') - 1) = Some e \<and> res = Inl (Extern e)))
        \<and> (ReadFail \<in> set evs \<longrightarrow> res = Inl (Extern (inputErr r)))))" for r out
  have step: "Q r out" if t3: "trace r3 = trace r @ [Poll, ReadOk]" and e3: "inputErr r3 = inputErr r"
    and alive: "ctx (length (trace r)) = None" and q3: "Q r3 out" for r r3 out
    unfolding Q_def
  proof (intro allI impI)
    fix res r'
    assume "out = Done (res, r')"
    with q3 obtain evs where evs: "trace r' = trace r3 @ evs"
      "callEvents ctx (length (trace r3)) evs"
      "last evs = Poll \<longrightarrow> (\<exists>e. ctx (length (trace r') - 1) = Some e \<and> res = Inl (Extern e))"
      "ReadFail \<in> set evs \<longrightarrow> res = Inl (Extern (inputErr r3))"
      unfolding Q_def by blast
    have ne: "evs \<noteq> []" using evs(2) by (rule callEvents_nonempty)
    let ?evs = "Poll # ReadOk # evs"
    have "trace r' = trace r @ ?evs" using evs(1) t3 by simp
    moreover have "callEvents ctx (length (trace r)) ?evs"
      using evs(2) alive t3 by simp
    moreover have "last ?evs = last evs" using ne by simp
    moreover have "ReadFail \<in> set ?evs \<longleftrightarrow> ReadFail \<in> set evs" by simp
    ultimately show "\<exists>evs. trace r' = trace r @ evs
        \<and> callEvents ctx (length (trace r)) evs
        \<and> (last evs = Poll \<longrightarrow> (\<exists>e. ctx (length (trace r') - 1) = Some e \<and> res = Inl (Extern e)))
        \<and> (ReadFail \<in> set evs \<longrightarrow> res = Inl (Extern (inputErr r)))"
      using evs(3,4) e3 by (intro exI [of _ ?evs]) simp
  qed
  have "Q r (ReadMessage ctx r)"
  proof (induction r rule: ReadMessage_rounds [where ctx = ctx])
    case (cancelled r e)
    then show ?case unfolding Q_def by (auto intro!: exI [of _ "[Poll]"])
  next
    case (readfail r)
    then show ?case unfolding Q_def by (auto intro!: exI [of _ "[Poll, ReadFail]"])
  next
    case (blank_idle r raw rest)
    then show ?case unfolding Q_def by (auto simp: afterLine_def intro!: exI [of _ "[Poll, ReadOk]"])
  next
    case (blank_busy r raw rest m)
    then show ?case unfolding Q_def by (auto simp: afterLine_def intro!: exI [of _ "[Poll, ReadOk]"])
  next
    case (header_bad r raw rest)
    then show ?case unfolding Q_def by (auto simp: afterLine_def intro!: exI [of _ "[Poll, ReadOk]"])
  next
    case (header_ok r raw rest)
    show ?case
      by (rule step [OF _ _ header_ok(1) header_ok(5)]) (simp_all add: afterLine_def)
  next
    case (field_bad r raw rest m)
    then show ?case unfolding Q_def by (auto simp: afterLine_def intro!: exI [of _ "[Poll, ReadOk]"])
  next
    case (field_ok r raw rest m)
    show ?case
      by (rule step [OF _ _ field_ok(1) field_ok(5)]) (simp_all add: afterLine_def)
  qed
  then show ?thesis using assms unfolding Q_def by blast
qed

lemma ReadMessage_same_polls:
  fixes r :: "'x MessageReader"
  shows "(\<forall>k. ctx' (length (trace r) + 2 * k) = ctx (length (trace r) + 2 * k)) \<Longrightarrow>
    ReadMessage ctx' r = ReadMessage ctx r"
proof (induction r rule: ReadMessage_rounds [where ctx = ctx])
  case (cancelled r e)
  from cancelled(2) have "ctx' (length (trace r)) = ctx (length (trace r))"
    by (metis add.right_neutral mult_0_right)
  then show ?case using cancelled(1) by (simp add: ReadMessage_cancelled [of ctx' r e])
next
  case (readfail r)
  from readfail(3) have "ctx' (length (trace r)) = ctx (length (trace r))"
    by (metis add.right_neutral mult_0_right)
  then show ?case using readfail(1,2) by (simp add: ReadMessage_readfail [of ctx' r])
next
  case (blank_idle r raw rest)
  from blank_idle(5) have "ctx' (length (trace r)) = ctx (length (trace r))"
    by (metis add.right_neutral mult_0_right)
  then show ?case using blank_idle(1-4)
    ReadMessage_blank_idle [of ctx' r raw rest] by (simp add: blankLine_def)
next
  case (blank_busy r raw rest m)
  from blank_busy(5) have "ctx' (length (trace r)) = ctx (length (trace r))"
    by (metis add.right_neutral mult_0_right)
  then show ?case using blank_busy(1-4)
    ReadMessage_blank_busy [of ctx' r raw rest m] by (simp add: blankLine_def)
next
  case (header_bad r raw rest)
  from header_bad(7) have "ctx' (length (trace r)) = ctx (length (trace r))"
    by (metis add.right_neutral mult_0_right)
  then show ?case using header_bad(1-6)
    ReadMessage_header_bad [of ctx' r raw rest] by simp
next
  case (header_ok r raw rest)
  let ?r3 = "(afterLine r rest)\<lparr>message := Some (headerMessage raw)\<rparr>"
  from header_ok(6) have now: "ctx' (length (trace r)) = ctx (length (trace r))"
    by (metis add.right_neutral mult_0_right)
  have "\<forall>k. ctx' (length (trace ?r3) + 2 * k) = ctx (length (trace ?r3) + 2 * k)"
  proof
    fix k
    show "ctx' (length (trace ?r3) + 2 * k) = ctx (length (trace ?r3) + 2 * k)"
      using header_ok(6) [rule_format, of "Suc k"] by (simp add: afterLine_def)
  qed
  then have "ReadMessage ctx' ?r3 = ReadMessage ctx ?r3" by (rule header_ok(5))
  moreover have "ReadMessage ctx' r = ReadMessage ctx' ?r3"
    using ReadMessage_header_ok [of ctx' r raw rest] now header_ok(1-4) by simp
  ultimately show ?case by simp
next
  case (field_bad r raw rest m)
  from field_bad(7) have "ctx' (length (trace r)) = ctx (length (trace r))"
    by (metis add.right_neutral mult_0_right)
  then show ?case using field_bad(1-6)
    ReadMessage_field_bad [of ctx' r raw rest m] by simp
next
  case (field_ok r raw rest m)
  let ?r3 = "(afterLine r rest)\<lparr>message := Some (addField m raw)\<rparr>"
  from field_ok(6) have now: "ctx' (length (trace r)) = ctx (length (trace r))"
    by (metis add.right_neutral mult_0_right)
  have "\<forall>k. ctx' (length (trace ?r3) + 2 * k) = ctx (length (trace ?r3) + 2 * k)"
  proof
    fix k
    show "ctx' (length (trace ?r3) + 2 * k) = ctx (length (trace ?r3) + 2 * k)"
      using field_ok(6) [rule_format, of "Suc k"] by (simp add: afterLine_def)
  qed
  then have "ReadMessage ctx' ?r3 = ReadMessage ctx ?r3" by (rule field_ok(5))
  moreover have "ReadMessage ctx' r = ReadMessage ctx' ?r3"
    using ReadMessage_field_ok [of ctx' r raw rest m] now field_ok(1-4) by simp
  ultimately show ?case by simp
qed

subsection \<open>The header is parsed into a fresh message\<close>

lemma parseHeader_DoubleHeader_iff:
  "parseHeader line r = Done (Some DoubleHeader, r') \<longleftrightarrow>
     line \<noteq> [] \<and> (\<exists>m. message r = Some m \<and> (code m \<noteq> 0 \<or> description m \<noteq> [])) \<and> r' = r"
  by (auto simp: parseHeader_def Let_def split: option.splits list.splits)

lemma ReadMessage_not_DoubleHeader: "ReadMessage ctx r \<noteq> Done (Inl DoubleHeader, r')"
  by (induction r rule: ReadMessage_rounds [where ctx = ctx])
     (simp_all add: headerError_def fieldError_def)

lemma ReadMessages_not_DoubleHeader: "Inl DoubleHeader \<notin> set (ReadMessages ctx n r)"
proof (induction n arbitrary: r)
  case 0
  show ?case by simp
next
  case (Suc n)
  show ?case
  proof (cases "ReadMessage ctx r")
    case Panicked
    then show ?thesis by simp
  next
    case (Done p)
    obtain res r' where p: "p = (res, r')" by (cases p)
    have "res \<noteq> Inl DoubleHeader"
      using ReadMessage_not_DoubleHeader [of ctx r r'] Done p by auto
    then show ?thesis using Done p Suc.IH [of r'] by simp
  qed
qed

subsection \<open>What a returned message was built from\<close>

text \<open>
  A message that a call returns is the message that was in progress when the call started
  (a header line, when none was) with the field lines the call read, and the call ended
  on a blank line. A call that starts idle returns only complete messages.
\<close>

lemma fieldValues_made [simp]: "fieldValues (m\<lparr>fields' := Some (madeFields m)\<rparr>) k = fieldValues m k"
  by (simp add: fieldValues_def madeFields_def split: option.splits)

lemma ReadMessage_returns_complete:
  fixes r :: "'x MessageReader"
  assumes "ReadMessage ctx r = Done (Inr m, r')"
  shows "message r' = None \<and>
    (case message r of
       None \<Rightarrow> \<exists>h fs b. headerLine h \<and> list_all fieldLine fs \<and> blankLine b
         \<and> input r = h @ concat fs @ b @ input r' \<and> m = addFields (headerMessage h) fs
     | Some m0 \<Rightarrow> \<exists>fs b. list_all fieldLine fs \<and> blankLine b
         \<and> input r = concat fs @ b @ input r' \<and> m = addFields m0 fs)"
proof -
  define Q :: "'x MessageReader \<Rightarrow> (('x error + Message) \<times> 'x MessageReader) exec \<Rightarrow> bool"
    where "Q r out \<longleftrightarrow> (\<forall>m r'. out = Done (Inr m, r') \<longrightarrow> message r' = None \<and>
      (case message r of
         None \<Rightarrow> \<exists>h fs b. headerLine h \<and> list_all fieldLine fs \<and> blankLine b
           \<and> input r = h @ concat fs @ b @ input r' \<and> m = addFields (headerMessage h) fs
       | Some m0 \<Rightarrow> \<exists>fs b. list_all fieldLine fs \<and> blankLine b
           \<and> input r = concat fs @ b @ input r' \<and> m = addFields m0 fs))" for r out
  have "Q r (ReadMessage ctx r)"
  proof (induction r rule: ReadMessage_rounds [where ctx = ctx])
    case (cancelled r e)
    show ?case unfolding Q_def by simp
  next
    case (readfail r)
    show ?case unfolding Q_def by simp
  next
    case (blank_idle r raw rest)
    show ?case unfolding Q_def by simp
  next
    case (blank_busy r raw rest m)
    have "list_all fieldLine [] \<and> blankLine raw \<and> input r = concat [] @ raw @ rest \<and> m = addFields m []"
      using blank_busy by simp
    then have "\<exists>fs b. list_all fieldLine fs \<and> blankLine b \<and> input r = concat fs @ b @ rest
        \<and> m = addFields m fs"
      by blast
    then show ?case unfolding Q_def using blank_busy(4) by (simp add: afterLine_def)
  next
    case (header_bad r raw rest)
    show ?case unfolding Q_def by simp
  next
    case (header_ok r raw rest)
    show ?case unfolding Q_def
    proof (intro allI impI)
      fix m r'
      assume "ReadMessage ctx ((afterLine r rest)\<lparr>message := Some (headerMessage raw)\<rparr>) = Done (Inr m, r')"
      with header_ok(5) obtain fs b where idle: "message r' = None"
        and *: "list_all fieldLine fs" "blankLine b" "rest = concat fs @ b @ input r'"
        "m = addFields (headerMessage raw) fs"
        unfolding Q_def by (auto simp: afterLine_def)
      have "headerLine raw \<and> list_all fieldLine fs \<and> blankLine b
          \<and> input r = raw @ concat fs @ b @ input r' \<and> m = addFields (headerMessage raw) fs"
        using * header_ok(2,3) by simp
      then have "\<exists>h fs b. headerLine h \<and> list_all fieldLine fs \<and> blankLine b
          \<and> input r = h @ concat fs @ b @ input r' \<and> m = addFields (headerMessage h) fs"
        by blast
      then show "message r' = None \<and>
        (case message r of
           None \<Rightarrow> \<exists>h fs b. headerLine h \<and> list_all fieldLine fs \<and> blankLine b
             \<and> input r = h @ concat fs @ b @ input r' \<and> m = addFields (headerMessage h) fs
         | Some m0 \<Rightarrow> \<exists>fs b. list_all fieldLine fs \<and> blankLine b
             \<and> input r = concat fs @ b @ input r' \<and> m = addFields m0 fs)"
        using idle header_ok(4) by simp
    qed
  next
    case (field_bad r raw rest m)
    show ?case unfolding Q_def by simp
  next
    case (field_ok r raw rest m0)
    show ?case unfolding Q_def
    proof (intro allI impI)
      fix m r'
      assume "ReadMessage ctx ((afterLine r rest)\<lparr>message := Some (addField m0 raw)\<rparr>) = Done (Inr m, r')"
      with field_ok(5) obtain fs b where idle: "message r' = None"
        and *: "list_all fieldLine fs" "blankLine b" "rest = concat fs @ b @ input r'"
        "m = addFields (addField m0 raw) fs"
        unfolding Q_def by (auto simp: afterLine_def)
      have "list_all fieldLine (raw # fs) \<and> blankLine b
          \<and> input r = concat (raw # fs) @ b @ input r' \<and> m = addFields m0 (raw # fs)"
        using * field_ok(2,3) by simp
      then have "\<exists>fs b. list_all fieldLine fs \<and> blankLine b
          \<and> input r = concat fs @ b @ input r' \<and> m = addFields m0 fs"
        by blast
      then show "message r' = None \<and>
        (case message r of
           None \<Rightarrow> \<exists>h fs b. headerLine h \<and> list_all fieldLine fs \<and> blankLine b
             \<and> input r = h @ concat fs @ b @ input r' \<and> m = addFields (headerMessage h) fs
         | Some m0 \<Rightarrow> \<exists>fs b. list_all fieldLine fs \<and> blankLine b
             \<and> input r = concat fs @ b @ input r' \<and> m = addFields m0 fs)"
        using idle field_ok(4) by simp
    qed
  qed
  then show ?thesis using assms unfolding Q_def by blast
qed

subsection \<open>Blank lines before a header\<close>

lemma afterLines_afterLine: "afterLines (afterLine r rest') n rest = afterLines r (Suc n) rest"
  by (simp add: afterLines_def afterLine_def)

lemma ReadMessages_blank_lines:
  assumes alive: "\<forall>t. ctx t = None"
  shows "message r = None \<Longrightarrow> list_all blankLine bs \<Longrightarrow> input r = concat bs @ rest \<Longrightarrow>
    ReadMessages ctx (length bs + n) r =
      replicate (length bs) (Inl EmptyMessage) @ ReadMessages ctx n (afterLines r (length bs) rest)"
proof (induction bs arbitrary: r)
  case Nil
  have "afterLines r 0 rest = r" using Nil by (simp add: afterLines_def)
  then show ?case by simp
next
  case (Cons b bs)
  let ?r1 = "afterLine r (concat bs @ rest)"
  have bb: "blankLine b" and bs: "list_all blankLine bs"
    using Cons.prems(2) by simp_all
  have b: "isLine b" "TrimSpace b = []"
    using bb by (simp_all add: blankLine_def)
  have i: "input r = b @ (concat bs @ rest)" using Cons.prems(3) by simp
  have 1: "ReadMessage ctx r = Done (Inl EmptyMessage, ?r1)"
    using ReadMessage_blank_idle [of ctx r b "concat bs @ rest"] alive b i Cons.prems(1) by simp
  have "ReadMessages ctx (length bs + n) ?r1 =
      replicate (length bs) (Inl EmptyMessage) @ ReadMessages ctx n (afterLines ?r1 (length bs) rest)"
    by (rule Cons.IH) (simp_all add: bs afterLine_def Cons.prems(1))
  then show ?case using 1 by (simp add: afterLines_afterLine)
qed

subsection \<open>Lines as written\<close>

text \<open>
  \<open>Atoi\<close> gives the value of an integer that fits; a header or field line as written is
  one the reader parses, into the code, description, key and value written.
\<close>

lemma parseDigits_decimal:
  "list_all isDigit ds \<Longrightarrow> parseDigits ds n = Some (n * 10 ^ length ds + decimal ds)"
proof (induction ds arbitrary: n)
  case Nil
  show ?case by simp
next
  case (Cons d ds)
  then have "parseDigits (d # ds) n = parseDigits ds (n * 10 + digitVal d)" by simp
  also have "\<dots> = Some ((n * 10 + digitVal d) * 10 ^ length ds + decimal ds)"
    using Cons by simp
  also have "(n * 10 + digitVal d) * 10 ^ length ds + decimal ds
      = n * 10 ^ length (d # ds) + decimal (d # ds)"
    by (simp add: digitVal_def algebra_simps)
  finally show ?case .
qed

lemma Atoi_integerValue:
  assumes "isInteger s"
  shows "Atoi s = (if fitsInt (integerValue s) then Some (integerValue s) else None)"
proof -
  obtain c cs where s: "s = c # cs" using assms by (cases s) (simp_all add: isInteger_def)
  let ?ds = "if c = CHR ''-'' \<or> c = CHR ''+'' then cs else s"
  have ds: "?ds \<noteq> []" "list_all isDigit ?ds"
    using assms unfolding s isInteger_def by (simp_all add: Let_def)
  have p: "parseDigits ?ds 0 = Some (decimal ?ds)"
    using parseDigits_decimal [OF ds(2), of 0] by simp
  have v: "integerValue s = (if c = CHR ''-'' then - decimal ?ds else decimal ?ds)"
    unfolding s integerValue_def by simp
  show ?thesis
    using ds(1) p unfolding v unfolding Atoi_def s
    by (simp add: Let_def intSize_def fitsInt_def)
qed

lemma headerOf_headerLine:
  assumes "isLine raw" and "headerOf raw c d" and "fitsInt c"
  shows "headerLine raw \<and> headerMessage raw = \<lparr>code = c, description = d, fields' = None\<rparr>"
proof -
  from assms(2) obtain line p0 p1 tok where *: "trimOf raw line" "line = p0 @ SP # p1"
    "SP \<notin> set p0" "trimOf p0 tok" "isInteger tok" "c = integerValue tok" "trimOf p1 d"
    unfolding headerOf_def by blast
  have line: "TrimSpace raw = p0 @ SP # p1" using *(1,2) by (simp add: trimOf_iff)
  have tok: "headerToken raw = tok"
    unfolding headerToken_def line using *(3,4) by (simp add: takeWhile_delim trimOf_iff)
  have rest: "headerRest raw = d"
    unfolding headerRest_def line using *(3,7) by (simp add: dropWhile_delim trimOf_iff)
  have a: "Atoi tok = Some c"
    using Atoi_integerValue [OF *(5)] *(6) assms(3) by simp
  show ?thesis
    using assms(1) a unfolding headerLine_def headerMessage_def tok rest line by simp
qed

lemma fieldOf_fieldLine:
  assumes "isLine raw" and "fieldOf raw k v"
  shows "fieldLine raw \<and> fieldKey raw = k \<and> fieldValue raw = v"
proof -
  from assms(2) obtain line p0 p1 where *: "trimOf raw line" "line = p0 @ COLON # p1"
    "COLON \<notin> set p0" "trimOf p0 k" "trimOf p1 v" "k \<noteq> []" "v \<noteq> []"
    unfolding fieldOf_def by blast
  have line: "TrimSpace raw = p0 @ COLON # p1" using *(1,2) by (simp add: trimOf_iff)
  have k: "fieldKey raw = k"
    unfolding fieldKey_def line using *(3,4) by (simp add: takeWhile_delim trimOf_iff)
  have v: "fieldValue raw = v"
    unfolding fieldValue_def line using *(3,5) by (simp add: dropWhile_delim trimOf_iff)
  show ?thesis
    using assms(1) *(6,7) unfolding fieldLine_def k v line by simp
qed

lemma fieldsOf_lines:
  assumes "list_all2 (\<lambda>f kv. isLine f \<and> fieldOf f (fst kv) (snd kv)) fs kvs"
  shows "list_all fieldLine fs
    \<and> map fieldValue (filter (\<lambda>f. fieldKey f = k) fs) = map snd (filter (\<lambda>kv. fst kv = k) kvs)
    \<and> fieldKey ` set fs = fst ` set kvs"
  using assms
proof (induction fs kvs rule: list_all2_induct)
  case Nil
  show ?case by simp
next
  case (Cons f fs kv kvs)
  then show ?case using fieldOf_fieldLine [of f "fst kv" "snd kv"] by auto
qed

lemma trimOfI:
  "list_all (\<lambda>e. e \<in> set whiteSpace) ls \<Longrightarrow> list_all (\<lambda>e. e \<in> set whiteSpace) rs \<Longrightarrow>
   s = concat ls @ t @ concat rs \<Longrightarrow> trimmed t \<Longrightarrow> trimOf s t"
  unfolding trimOf_def by blast

lemma headerOfI:
  "trimOf raw (p0 @ SP # p1) \<Longrightarrow> SP \<notin> set p0 \<Longrightarrow> trimOf p0 tok \<Longrightarrow> isInteger tok \<Longrightarrow>
   trimOf p1 d \<Longrightarrow> headerOf raw (integerValue tok) d"
  unfolding headerOf_def by blast

lemma fieldOfI:
  "trimOf raw (p0 @ COLON # p1) \<Longrightarrow> COLON \<notin> set p0 \<Longrightarrow> trimOf p0 k \<Longrightarrow> trimOf p1 v \<Longrightarrow>
   k \<noteq> [] \<Longrightarrow> v \<noteq> [] \<Longrightarrow> fieldOf raw k v"
  unfolding fieldOf_def by blast

section \<open>The claims\<close>

text \<open>
  C1 (amended). When the reader is idle, the context is not cancelled and the input goes
  on with one well-formed block (a header line \<^verbatim>\<open><integer code> <description>\<close> whose
  code fits \<^verbatim>\<open>int\<close>, any number of field lines \<^verbatim>\<open><key>: <value>\<close>, a blank line),
  \<open>ReadMessage\<close> returns a message: its code is the value of the integer written as the
  first space-separated token, its description is the trimmed remainder of the header, its
  keys are the trimmed keys of the field lines, and the values of a key are the trimmed
  values of the lines with that key. The reader is idle again afterwards, with the bytes
  after the block still to read, so the next call starts a new message. Trimming is
  \<open>trimOf\<close>, and the value of the integer is \<open>integerValue\<close>: neither is said through the
  functions the reader calls.
\<close>

theorem ReadMessage_well_formed_block:
  assumes "\<forall>t. ctx t = None" and "message r = None"
    and "isLine h" and "headerOf h c d" and "fitsInt c"
    and "list_all2 (\<lambda>f kv. isLine f \<and> fieldOf f (fst kv) (snd kv)) fs kvs"
    and "isLine b" and "trimOf b []"
    and "input r = h @ concat fs @ b @ rest"
  shows "\<exists>m r'. ReadMessage ctx r = Done (Inr m, r')
    \<and> code m = c \<and> description m = d
    \<and> (\<forall>k. hasKey m k = (k \<in> fst ` set kvs))
    \<and> (\<forall>k. fieldValues m k = map snd (filter (\<lambda>kv. fst kv = k) kvs))
    \<and> message r' = None \<and> input r' = rest"
proof -
  have h: "headerLine h" and hm: "headerMessage h = \<lparr>code = c, description = d, fields' = None\<rparr>"
    using headerOf_headerLine [OF assms(3,4,5)] by simp_all
  have fs: "list_all fieldLine fs" and keys: "fieldKey ` set fs = fst ` set kvs"
    using fieldsOf_lines [OF assms(6)] by simp_all
  have vals: "map fieldValue (filter (\<lambda>f. fieldKey f = k) fs) = map snd (filter (\<lambda>kv. fst kv = k) kvs)"
    for k using fieldsOf_lines [OF assms(6), of k] by simp
  have b: "blankLine b" using assms(7,8) by (simp add: blankLine_def trimOf_iff)
  let ?m = "addFields (headerMessage h) fs"
  let ?r' = "afterLines r (Suc (Suc (length fs))) rest"
  have "ReadMessage ctx r = Done (Inr ?m, ?r')"
    using assms(1,2) h fs b assms(9) by (rule ReadMessage_block)
  moreover have "code ?m = c \<and> description ?m = d" by (simp add: hm)
  moreover have "\<forall>k. hasKey ?m k = (k \<in> fst ` set kvs)"
    unfolding hasKey_addFields keys hm by (simp add: hasKey_def)
  moreover have "\<forall>k. fieldValues ?m k = map snd (filter (\<lambda>kv. fst kv = k) kvs)"
    unfolding fieldValues_addFields vals hm by (simp add: fieldValues_def)
  moreover have "message ?r' = None \<and> input ?r' = rest"
    using assms(2) by (simp add: afterLines_def)
  ultimately show ?thesis by blast
qed

theorem ReadMessage_well_formed_block_witness:
  "headerOf ([SP, CHR 0x09] @ ''601'' @ [CHR 0x09, SP, SP] @ ''Configuration'' @ [SP, CHR 0x0D, NL])
      601 ''Configuration''
   \<and> fieldOf ([CHR 0xC2, CHR 0xA0] @ ''Config-Item :  a=1 '' @ [NL]) ''Config-Item'' ''a=1''
   \<and> fieldOf (''URI:'' @ [CHR 0x09] @ ''http://x:80/'' @ [CHR 0x0D, NL]) ''URI'' ''http://x:80/''
   \<and> fieldOf (''Config-Item:b=2'' @ [NL]) ''Config-Item'' ''b=2''
   \<and> trimOf
       [CHR 0x09, CHR 0x0B, CHR 0x0C, CHR 0x0D, CHR 0x20, CHR 0xC2, CHR 0x85, CHR 0xC2, CHR 0xA0, CHR 0xE1, CHR 0x9A, CHR 0x80, CHR 0xE2, CHR 0x80, CHR 0x80,
        CHR 0xE2, CHR 0x80, CHR 0x81, CHR 0xE2, CHR 0x80, CHR 0x82, CHR 0xE2, CHR 0x80, CHR 0x83, CHR 0xE2, CHR 0x80, CHR 0x84, CHR 0xE2, CHR 0x80, CHR 0x85,
        CHR 0xE2, CHR 0x80, CHR 0x86, CHR 0xE2, CHR 0x80, CHR 0x87, CHR 0xE2, CHR 0x80, CHR 0x88, CHR 0xE2, CHR 0x80, CHR 0x89, CHR 0xE2, CHR 0x80, CHR 0x8A,
        CHR 0xE2, CHR 0x80, CHR 0xA8, CHR 0xE2, CHR 0x80, CHR 0xA9, CHR 0xE2, CHR 0x80, CHR 0xAF, CHR 0xE2, CHR 0x81, CHR 0x9F, CHR 0xE3, CHR 0x80, CHR 0x80,
        CHR 0x0A]
       []
   \<and> (\<exists>m r'. ReadMessage (\<lambda>t. None)
          \<lparr>input =
              ([SP, CHR 0x09] @ ''601'' @ [CHR 0x09, SP, SP] @ ''Configuration'' @ [SP, CHR 0x0D, NL])
              @ ([CHR 0xC2, CHR 0xA0] @ ''Config-Item :  a=1 '' @ [NL])
              @ (''URI:'' @ [CHR 0x09] @ ''http://x:80/'' @ [CHR 0x0D, NL])
              @ (''Config-Item:b=2'' @ [NL])
              @ [CHR 0x09, CHR 0x0B, CHR 0x0C, CHR 0x0D, CHR 0x20, CHR 0xC2, CHR 0x85, CHR 0xC2, CHR 0xA0, CHR 0xE1, CHR 0x9A, CHR 0x80, CHR 0xE2, CHR 0x80, CHR 0x80,
        CHR 0xE2, CHR 0x80, CHR 0x81, CHR 0xE2, CHR 0x80, CHR 0x82, CHR 0xE2, CHR 0x80, CHR 0x83, CHR 0xE2, CHR 0x80, CHR 0x84, CHR 0xE2, CHR 0x80, CHR 0x85,
        CHR 0xE2, CHR 0x80, CHR 0x86, CHR 0xE2, CHR 0x80, CHR 0x87, CHR 0xE2, CHR 0x80, CHR 0x88, CHR 0xE2, CHR 0x80, CHR 0x89, CHR 0xE2, CHR 0x80, CHR 0x8A,
        CHR 0xE2, CHR 0x80, CHR 0xA8, CHR 0xE2, CHR 0x80, CHR 0xA9, CHR 0xE2, CHR 0x80, CHR 0xAF, CHR 0xE2, CHR 0x81, CHR 0x9F, CHR 0xE3, CHR 0x80, CHR 0x80,
        CHR 0x0A]
              @ ''600 URI Acquire'',
           inputErr = ''EOF'', message = None, trace = []\<rparr> = Done (Inr m, r')
        \<and> code m = 601 \<and> description m = ''Configuration''
        \<and> fieldValues m ''Config-Item'' = [''a=1'', ''b=2'']
        \<and> fieldValues m ''URI'' = [''http://x:80/'']
        \<and> fieldValues m ''Filename'' = []
        \<and> hasKey m ''URI'' \<and> \<not> hasKey m ''Filename''
        \<and> message r' = None \<and> input r' = ''600 URI Acquire'')
   \<and> (case ReadMessage (\<lambda>t. None)
          \<lparr>input =
              ([SP, CHR 0x09] @ ''601'' @ [CHR 0x09, SP, SP] @ ''Configuration'' @ [SP, CHR 0x0D, NL])
              @ ([CHR 0xC2, CHR 0xA0] @ ''Config-Item :  a=1 '' @ [NL])
              @ (''URI:'' @ [CHR 0x09] @ ''http://x:80/'' @ [CHR 0x0D, NL])
              @ (''Config-Item:b=2'' @ [NL])
              @ [CHR 0x09, CHR 0x0B, CHR 0x0C, CHR 0x0D, CHR 0x20, CHR 0xC2, CHR 0x85, CHR 0xC2, CHR 0xA0, CHR 0xE1, CHR 0x9A, CHR 0x80, CHR 0xE2, CHR 0x80, CHR 0x80,
        CHR 0xE2, CHR 0x80, CHR 0x81, CHR 0xE2, CHR 0x80, CHR 0x82, CHR 0xE2, CHR 0x80, CHR 0x83, CHR 0xE2, CHR 0x80, CHR 0x84, CHR 0xE2, CHR 0x80, CHR 0x85,
        CHR 0xE2, CHR 0x80, CHR 0x86, CHR 0xE2, CHR 0x80, CHR 0x87, CHR 0xE2, CHR 0x80, CHR 0x88, CHR 0xE2, CHR 0x80, CHR 0x89, CHR 0xE2, CHR 0x80, CHR 0x8A,
        CHR 0xE2, CHR 0x80, CHR 0xA8, CHR 0xE2, CHR 0x80, CHR 0xA9, CHR 0xE2, CHR 0x80, CHR 0xAF, CHR 0xE2, CHR 0x81, CHR 0x9F, CHR 0xE3, CHR 0x80, CHR 0x80,
        CHR 0x0A]
              @ ''600 URI Acquire'',
           inputErr = ''EOF'', message = None, trace = []\<rparr> of
        Done (Inr m, r') \<Rightarrow>
          code m = 601 \<and> description m = ''Configuration''
          \<and> fieldValues m ''Config-Item'' = [''a=1'', ''b=2'']
          \<and> fieldValues m ''URI'' = [''http://x:80/'']
          \<and> fieldValues m ''Filename'' = []
          \<and> (case message r' of None \<Rightarrow> True | Some x \<Rightarrow> False)
          \<and> input r' = ''600 URI Acquire''
      | _ \<Rightarrow> False)"
proof -
  let ?h = "[SP, CHR 0x09] @ ''601'' @ [CHR 0x09, SP, SP] @ ''Configuration'' @ [SP, CHR 0x0D, NL]"
  let ?f1 = "[CHR 0xC2, CHR 0xA0] @ ''Config-Item :  a=1 '' @ [NL]"
  let ?f2 = "''URI:'' @ [CHR 0x09] @ ''http://x:80/'' @ [CHR 0x0D, NL]"
  let ?f3 = "''Config-Item:b=2'' @ [NL]"
  let ?b = "[CHR 0x09, CHR 0x0B, CHR 0x0C, CHR 0x0D, CHR 0x20, CHR 0xC2, CHR 0x85, CHR 0xC2, CHR 0xA0, CHR 0xE1, CHR 0x9A, CHR 0x80, CHR 0xE2, CHR 0x80, CHR 0x80,
        CHR 0xE2, CHR 0x80, CHR 0x81, CHR 0xE2, CHR 0x80, CHR 0x82, CHR 0xE2, CHR 0x80, CHR 0x83, CHR 0xE2, CHR 0x80, CHR 0x84, CHR 0xE2, CHR 0x80, CHR 0x85,
        CHR 0xE2, CHR 0x80, CHR 0x86, CHR 0xE2, CHR 0x80, CHR 0x87, CHR 0xE2, CHR 0x80, CHR 0x88, CHR 0xE2, CHR 0x80, CHR 0x89, CHR 0xE2, CHR 0x80, CHR 0x8A,
        CHR 0xE2, CHR 0x80, CHR 0xA8, CHR 0xE2, CHR 0x80, CHR 0xA9, CHR 0xE2, CHR 0x80, CHR 0xAF, CHR 0xE2, CHR 0x81, CHR 0x9F, CHR 0xE3, CHR 0x80, CHR 0x80,
        CHR 0x0A]"
  let ?kvs = "[(''Config-Item'', ''a=1''), (''URI'', ''http://x:80/''), (''Config-Item'', ''b=2'')]"
  let ?r = "\<lparr>input = ?h @ ?f1 @ ?f2 @ ?f3 @ ?b @ ''600 URI Acquire'',
           inputErr = ''EOF'', message = None, trace = []\<rparr>"
  have v: "integerValue ''601'' = 601" by code_simp
  have "headerOf ?h (integerValue ''601'') ''Configuration''"
  proof (rule headerOfI [where ?p0.0 = "''601'' @ [CHR 0x09]" and ?p1.0 = "[SP] @ ''Configuration''"])
    show "trimOf ?h ((''601'' @ [CHR 0x09]) @ SP # [SP] @ ''Configuration'')"
      by (rule trimOfI [where ls = "[[SP], [CHR 0x09]]" and rs = "[[SP], [CHR 0x0D], [NL]]"])
         code_simp+
    show "SP \<notin> set (''601'' @ [CHR 0x09])" by simp
    show "trimOf (''601'' @ [CHR 0x09]) ''601''"
      by (rule trimOfI [where ls = "[]" and rs = "[[CHR 0x09]]"]) code_simp+
    show "isInteger ''601''" by code_simp
    show "trimOf ([SP] @ ''Configuration'') ''Configuration''"
      by (rule trimOfI [where ls = "[[SP]]" and rs = "[]"]) code_simp+
  qed
  then have h: "headerOf ?h 601 ''Configuration''" unfolding v .
  have f1: "fieldOf ?f1 ''Config-Item'' ''a=1''"
  proof (rule fieldOfI [where ?p0.0 = "''Config-Item ''" and ?p1.0 = "''  a=1''"])
    show "trimOf ?f1 (''Config-Item '' @ COLON # ''  a=1'')"
      by (rule trimOfI [where ls = "[[CHR 0xC2, CHR 0xA0]]" and rs = "[[SP], [NL]]"]) code_simp+
    show "trimOf ''Config-Item '' ''Config-Item''"
      by (rule trimOfI [where ls = "[]" and rs = "[[SP]]"]) code_simp+
    show "trimOf ''  a=1'' ''a=1''"
      by (rule trimOfI [where ls = "[[SP], [SP]]" and rs = "[]"]) code_simp+
  qed simp_all
  have f2: "fieldOf ?f2 ''URI'' ''http://x:80/''"
  proof (rule fieldOfI [where ?p0.0 = "''URI''" and ?p1.0 = "[CHR 0x09] @ ''http://x:80/''"])
    show "trimOf ?f2 (''URI'' @ COLON # [CHR 0x09] @ ''http://x:80/'')"
      by (rule trimOfI [where ls = "[]" and rs = "[[CHR 0x0D], [NL]]"]) code_simp+
    show "trimOf ''URI'' ''URI''"
      by (rule trimOfI [where ls = "[]" and rs = "[]"]) code_simp+
    show "trimOf ([CHR 0x09] @ ''http://x:80/'') ''http://x:80/''"
      by (rule trimOfI [where ls = "[[CHR 0x09]]" and rs = "[]"]) code_simp+
  qed simp_all
  have f3: "fieldOf ?f3 ''Config-Item'' ''b=2''"
  proof (rule fieldOfI [where ?p0.0 = "''Config-Item''" and ?p1.0 = "''b=2''"])
    show "trimOf ?f3 (''Config-Item'' @ COLON # ''b=2'')"
      by (rule trimOfI [where ls = "[]" and rs = "[[NL]]"]) code_simp+
    show "trimOf ''Config-Item'' ''Config-Item''"
      by (rule trimOfI [where ls = "[]" and rs = "[]"]) code_simp+
    show "trimOf ''b=2'' ''b=2''"
      by (rule trimOfI [where ls = "[]" and rs = "[]"]) code_simp+
  qed simp_all
  have b: "trimOf ?b []"
    by (rule trimOfI [where ls = "[[CHR 0x09], [CHR 0x0B], [CHR 0x0C], [CHR 0x0D], [CHR 0x20], [CHR 0xC2, CHR 0x85], [CHR 0xC2, CHR 0xA0], [CHR 0xE1, CHR 0x9A, CHR 0x80], [CHR 0xE2, CHR 0x80, CHR 0x80], [CHR 0xE2, CHR 0x80, CHR 0x81], [CHR 0xE2, CHR 0x80, CHR 0x82], [CHR 0xE2, CHR 0x80, CHR 0x83], [CHR 0xE2, CHR 0x80, CHR 0x84], [CHR 0xE2, CHR 0x80, CHR 0x85], [CHR 0xE2, CHR 0x80, CHR 0x86], [CHR 0xE2, CHR 0x80, CHR 0x87], [CHR 0xE2, CHR 0x80, CHR 0x88], [CHR 0xE2, CHR 0x80, CHR 0x89], [CHR 0xE2, CHR 0x80, CHR 0x8A], [CHR 0xE2, CHR 0x80, CHR 0xA8], [CHR 0xE2, CHR 0x80, CHR 0xA9], [CHR 0xE2, CHR 0x80, CHR 0xAF], [CHR 0xE2, CHR 0x81, CHR 0x9F], [CHR 0xE3, CHR 0x80, CHR 0x80], [CHR 0x0A]]" and rs = "[]"])
       code_simp+
  have lh: "isLine ?h" and l1: "isLine ?f1" and l2: "isLine ?f2" and l3: "isLine ?f3"
    and lb: "isLine ?b" by code_simp+
  have fit: "fitsInt 601" by (simp add: fitsInt_def)
  have all: "list_all2 (\<lambda>f kv. isLine f \<and> fieldOf f (fst kv) (snd kv)) [?f1, ?f2, ?f3] ?kvs"
    using l1 l2 l3 f1 f2 f3 by simp
  have "\<exists>m r'. ReadMessage (\<lambda>t. None) ?r = Done (Inr m, r')
    \<and> code m = 601 \<and> description m = ''Configuration''
    \<and> (\<forall>k. hasKey m k = (k \<in> fst ` set ?kvs))
    \<and> (\<forall>k. fieldValues m k = map snd (filter (\<lambda>kv. fst kv = k) ?kvs))
    \<and> message r' = None \<and> input r' = ''600 URI Acquire''"
    by (rule ReadMessage_well_formed_block [OF _ _ lh h fit all lb b]) simp_all
  then obtain m r' where *: "ReadMessage (\<lambda>t. None) ?r = Done (Inr m, r')"
    "code m = 601" "description m = ''Configuration''"
    "\<forall>k. hasKey m k = (k \<in> fst ` set ?kvs)"
    "\<forall>k. fieldValues m k = map snd (filter (\<lambda>kv. fst kv = k) ?kvs)"
    "message r' = None" "input r' = ''600 URI Acquire''"
    by blast
  have "fieldValues m ''Config-Item'' = [''a=1'', ''b=2'']"
    and "fieldValues m ''URI'' = [''http://x:80/'']" and "fieldValues m ''Filename'' = []"
    using *(5) by simp_all
  moreover have "hasKey m ''URI''" and "\<not> hasKey m ''Filename''"
    using *(4) by simp_all
  ultimately have "\<exists>m r'. ReadMessage (\<lambda>t. None) ?r = Done (Inr m, r')
        \<and> code m = 601 \<and> description m = ''Configuration''
        \<and> fieldValues m ''Config-Item'' = [''a=1'', ''b=2'']
        \<and> fieldValues m ''URI'' = [''http://x:80/'']
        \<and> fieldValues m ''Filename'' = []
        \<and> hasKey m ''URI'' \<and> \<not> hasKey m ''Filename''
        \<and> message r' = None \<and> input r' = ''600 URI Acquire''"
    using *(1,2,3,6,7) by blast
  moreover have "case ReadMessage (\<lambda>t. None) ?r of
        Done (Inr m, r') \<Rightarrow>
          code m = 601 \<and> description m = ''Configuration''
          \<and> fieldValues m ''Config-Item'' = [''a=1'', ''b=2'']
          \<and> fieldValues m ''URI'' = [''http://x:80/'']
          \<and> fieldValues m ''Filename'' = []
          \<and> (case message r' of None \<Rightarrow> True | Some x \<Rightarrow> False)
          \<and> input r' = ''600 URI Acquire''
      | _ \<Rightarrow> False"
    by code_simp
  ultimately show ?thesis using h f1 f2 f3 b by (intro conjI)
qed

text \<open>
  C1 as first stated, for every integer code, fails: a header whose code is the integer
  \<open>2\<^sup>6\<^sup>3\<close>, followed by a blank line, is a well-formed block, and \<open>ReadMessage\<close> returns
  the malformed-header error for it, since \<^verbatim>\<open>strconv.Atoi\<close> parses into \<^verbatim>\<open>int\<close>.
\<close>

theorem well_formed_block_int_overflow:
  "isLine (''9223372036854775808 over'' @ [NL])
   \<and> headerOf (''9223372036854775808 over'' @ [NL]) 9223372036854775808 ''over''
   \<and> isLine [NL] \<and> trimOf [NL] []
   \<and> ReadMessage Background
        \<lparr>input = ''9223372036854775808 over'' @ [NL] @ [NL], inputErr = ''EOF'',
         message = None, trace = []\<rparr>
      = Done (Inl (HeaderCode ''9223372036854775808 over''),
          \<lparr>input = [NL], inputErr = ''EOF'', message = Some zeroMessage,
           trace = [Poll, ReadOk]\<rparr>)"
proof -
  let ?h = "''9223372036854775808 over'' @ [NL]"
  let ?r = "\<lparr>input = ''9223372036854775808 over'' @ [NL] @ [NL], inputErr = ''EOF'',
         message = None, trace = []\<rparr>"
  have l: "isLine ?h" by code_simp
  have v: "integerValue ''9223372036854775808'' = 9223372036854775808" by code_simp
  have "headerOf ?h (integerValue ''9223372036854775808'') ''over''"
  proof (rule headerOfI [where ?p0.0 = "''9223372036854775808''" and ?p1.0 = "''over''"])
    show "trimOf ?h (''9223372036854775808'' @ SP # ''over'')"
      by (rule trimOfI [where ls = "[]" and rs = "[[NL]]"]) code_simp+
    show "SP \<notin> set ''9223372036854775808''" by simp
    show "trimOf ''9223372036854775808'' ''9223372036854775808''"
      by (rule trimOfI [where ls = "[]" and rs = "[]"]) code_simp+
    show "isInteger ''9223372036854775808''" by code_simp
    show "trimOf ''over'' ''over''"
      by (rule trimOfI [where ls = "[]" and rs = "[]"]) code_simp+
  qed
  then have h: "headerOf ?h 9223372036854775808 ''over''" unfolding v .
  have lb: "isLine [NL]" by code_simp
  have b: "trimOf [NL] []"
    by (rule trimOfI [where ls = "[[NL]]" and rs = "[]"]) code_simp+
  have n: "TrimSpace ?h \<noteq> []" by code_simp
  have bad: "SP \<notin> set (TrimSpace ?h) \<or> Atoi (headerToken ?h) = None" by code_simp
  have e: "(headerError ?h :: string error) = HeaderCode ''9223372036854775808 over''"
    by code_simp
  have "ReadMessage Background ?r
      = Done (Inl (headerError ?h), (afterLine ?r [NL])\<lparr>message := Some zeroMessage\<rparr>)"
    by (rule ReadMessage_header_bad [of Background ?r ?h "[NL]", OF _ l _ n _ bad])
       (simp_all add: Background_def)
  then have "ReadMessage Background ?r
      = Done (Inl (HeaderCode ''9223372036854775808 over''),
          \<lparr>input = [NL], inputErr = ''EOF'', message = Some zeroMessage,
           trace = [Poll, ReadOk]\<rparr>)"
    unfolding e by (simp add: afterLine_def)
  with l h lb b show ?thesis by (intro conjI)
qed

text \<open>
  C8. In the message \<open>ReadMessage\<close> returns for a well-formed block, the values of a key
  are the trimmed values of the field lines with that key, in the order the lines arrived;
  so they are when the key is repeated.
\<close>

theorem repeated_key_values_in_arrival_order:
  assumes "\<forall>t. ctx t = None" and "message r = None"
    and "headerLine h" and "list_all fieldLine fs" and "blankLine b"
    and "input r = h @ concat fs @ b @ rest"
  shows "\<exists>m r'. ReadMessage ctx r = Done (Inr m, r')
    \<and> fieldValues m k = map fieldValue (filter (\<lambda>f. fieldKey f = k) fs)"
proof -
  have "ReadMessage ctx r =
      Done (Inr (addFields (headerMessage h) fs), afterLines r (Suc (Suc (length fs))) rest)"
    using assms by (rule ReadMessage_block)
  moreover have "fieldValues (addFields (headerMessage h) fs) k =
      map fieldValue (filter (\<lambda>f. fieldKey f = k) fs)"
    by (simp add: fieldValues_addFields) (simp add: fieldValues_def headerMessage_def)
  ultimately show ?thesis by blast
qed

theorem repeated_key_values_in_arrival_order_witness:
  "\<exists>m r'. ReadMessage (\<lambda>t. None)
      \<lparr>input = ''601 Configuration'' @ [NL] @ ''Config-Item: b=2'' @ [NL] @ ''Other: x'' @ [NL]
          @ ''Config-Item: a=1'' @ [NL] @ ''Config-Item: b=2'' @ [NL] @ [NL],
       inputErr = ''EOF'', message = None, trace = []\<rparr> = Done (Inr m, r')
    \<and> fieldValues m ''Config-Item'' = [''b=2'', ''a=1'', ''b=2'']"
proof -
  let ?h = "''601 Configuration'' @ [NL]"
  let ?fs = "[''Config-Item: b=2'' @ [NL], ''Other: x'' @ [NL], ''Config-Item: a=1'' @ [NL],
    ''Config-Item: b=2'' @ [NL]]"
  have h: "headerLine ?h" by code_simp
  have fs: "list_all fieldLine ?fs" by code_simp
  have b: "blankLine [NL]" by code_simp
  have v: "map fieldValue (filter (\<lambda>f. fieldKey f = ''Config-Item'') ?fs) = [''b=2'', ''a=1'', ''b=2'']"
    by code_simp
  let ?r = "\<lparr>input = ''601 Configuration'' @ [NL] @ ''Config-Item: b=2'' @ [NL] @ ''Other: x'' @ [NL]
          @ ''Config-Item: a=1'' @ [NL] @ ''Config-Item: b=2'' @ [NL] @ [NL],
       inputErr = ''EOF'', message = None, trace = []\<rparr>"
  have "\<exists>m r'. ReadMessage (\<lambda>t. None) ?r = Done (Inr m, r')
    \<and> fieldValues m ''Config-Item'' = map fieldValue (filter (\<lambda>f. fieldKey f = ''Config-Item'') ?fs)"
    by (rule repeated_key_values_in_arrival_order [OF _ _ h fs b, of _ _ "[]"]) simp_all
  then show ?thesis unfolding v .
qed

text \<open>
  C3. When the first non-blank line an idle reader meets (the header) has no space after
  trimming, or its first space-separated token is not an integer, the call that reads it
  returns a malformed-header error, which is a protocol-format error, and no message. Each
  blank line before it costs a call of its own, which returns \<open>EmptyMessage\<close>, a
  protocol-format error as well: no call returns a message.
\<close>

theorem malformed_header_rejected:
  fixes r :: "'x MessageReader"
  assumes "message r = None" and "\<forall>t. ctx t = None"
    and "list_all blankLine bs"
    and "isLine raw" and "TrimSpace raw \<noteq> []"
    and "SP \<notin> set (TrimSpace raw) \<or> \<not> isInteger (headerToken raw)"
    and "input r = concat bs @ raw @ rest"
  shows "(bs = [] \<longrightarrow> ReadMessage ctx r =
        Done (Inl (headerError raw), (afterLine r rest)\<lparr>message := Some zeroMessage\<rparr>))
    \<and> ReadMessages ctx (Suc (length bs)) r =
        replicate (length bs) (Inl EmptyMessage) @ [Inl (headerError raw)]
    \<and> malformedHeader (headerError raw :: 'x error)
    \<and> ProtocolFormat (headerError raw :: 'x error)
    \<and> ProtocolFormat (EmptyMessage :: 'x error)"
proof -
  have alive: "ctx t = None" for t using assms(2) by simp
  have bad: "SP \<notin> set (TrimSpace raw) \<or> Atoi (headerToken raw) = None"
    using assms(6) not_isInteger_Atoi [of "headerToken raw"] by auto
  have header: "ReadMessage ctx s =
      Done (Inl (headerError raw), (afterLine s rest)\<lparr>message := Some zeroMessage\<rparr>)"
    if "message s = None" and "input s = raw @ rest" for s :: "'x MessageReader"
    by (rule ReadMessage_header_bad [of ctx s raw rest, OF alive assms(4) that(2) assms(5) that(1) bad])
  have 1: "bs = [] \<longrightarrow> ReadMessage ctx r =
        Done (Inl (headerError raw), (afterLine r rest)\<lparr>message := Some zeroMessage\<rparr>)"
    using header [of r] assms(1,7) by simp
  let ?r1 = "afterLines r (length bs) (raw @ rest)"
  have "ReadMessages ctx (length bs + 1) r =
      replicate (length bs) (Inl EmptyMessage) @ ReadMessages ctx 1 ?r1"
    by (rule ReadMessages_blank_lines [OF assms(2,1,3,7)])
  moreover have "ReadMessages ctx 1 ?r1 = [Inl (headerError raw)]"
    using header [of ?r1] assms(1) by (simp add: afterLines_def)
  ultimately have 2: "ReadMessages ctx (Suc (length bs)) r =
        replicate (length bs) (Inl EmptyMessage) @ [Inl (headerError raw)]"
    by simp
  have 3: "malformedHeader (headerError raw :: 'x error)"
    by (simp add: headerError_def malformedHeader_def)
  have 4: "ProtocolFormat (headerError raw :: 'x error)"
    by (simp add: headerError_def ProtocolFormat_def)
  have 5: "ProtocolFormat (EmptyMessage :: 'x error)"
    by (simp add: ProtocolFormat_def)
  from 1 2 3 4 5 show ?thesis by (intro conjI)
qed

theorem malformed_header_rejected_witness:
  "ReadMessage (\<lambda>t. None)
      \<lparr>input = ''Capabilities'' @ [NL, NL], inputErr = ''EOF'', message = None, trace = []\<rparr>
     = Done (Inl (HeaderParts ''Capabilities''),
         \<lparr>input = [NL], inputErr = ''EOF'', message = Some zeroMessage, trace = [Poll, ReadOk]\<rparr>)
   \<and> ReadMessages (\<lambda>t. None) 2
      \<lparr>input = [NL] @ ''6x0 URI Acquire'' @ [NL, NL], inputErr = ''EOF'', message = None, trace = []\<rparr>
     = [Inl EmptyMessage, Inl (HeaderCode ''6x0 URI Acquire'')]"
proof -
  let ?a = "''Capabilities'' @ [NL]" and ?b = "''6x0 URI Acquire'' @ [NL]"
  let ?ra = "\<lparr>input = ''Capabilities'' @ [NL, NL], inputErr = ''EOF'', message = None, trace = []\<rparr>"
  let ?rb = "\<lparr>input = [NL] @ ''6x0 URI Acquire'' @ [NL, NL], inputErr = ''EOF'', message = None, trace = []\<rparr>"
  have la: "isLine ?a" by code_simp
  have lb: "isLine ?b" by code_simp
  have na: "TrimSpace ?a \<noteq> []" by code_simp
  have nb: "TrimSpace ?b \<noteq> []" by code_simp
  have ba: "SP \<notin> set (TrimSpace ?a) \<or> \<not> isInteger (headerToken ?a)" by code_simp
  have bb: "SP \<notin> set (TrimSpace ?b) \<or> \<not> isInteger (headerToken ?b)" by code_simp
  have ea: "(headerError ?a :: string error) = HeaderParts ''Capabilities''" by code_simp
  have eb: "(headerError ?b :: string error) = HeaderCode ''6x0 URI Acquire''" by code_simp
  have bl: "list_all blankLine [[NL]]" by code_simp
  have "ReadMessage (\<lambda>t. None) ?ra
      = Done (Inl (headerError ?a), (afterLine ?ra [NL])\<lparr>message := Some zeroMessage\<rparr>)"
    using malformed_header_rejected [of ?ra "\<lambda>t. None" "[]" ?a "[NL]", OF _ _ _ la na ba]
    by simp
  moreover have "ReadMessages (\<lambda>t. None) (Suc (length [[NL]])) ?rb
      = replicate (length [[NL]]) (Inl EmptyMessage) @ [Inl (headerError ?b)]"
    using malformed_header_rejected [of ?rb "\<lambda>t. None" "[[NL]]" ?b "[NL]", OF _ _ bl lb nb bb]
    by simp
  ultimately show ?thesis
    unfolding ea eb by (simp add: afterLine_def numeral_2_eq_2)
qed

text \<open>
  C5. When an idle reader, its context not cancelled, reads a blank line first,
  \<open>ReadMessage\<close> returns the error \<open>EmptyMessage\<close> and no message; it does not panic.
\<close>

theorem blank_line_when_idle:
  assumes "message r = None" and "ctx (length (trace r)) = None"
    and "blankLine raw" and "input r = raw @ rest"
  shows "ReadMessage ctx r = Done (Inl EmptyMessage, afterLine r rest)
    \<and> ReadMessage ctx r \<noteq> Panicked"
  using ReadMessage_blank_idle [of ctx r raw rest] assms by (simp add: blankLine_def)

theorem blank_line_when_idle_witness:
  "ReadMessage (\<lambda>t. None)
      \<lparr>input = '' '' @ [CHR 0x09, CHR 0x0D, NL] @ ''600 URI Acquire'' @ [NL], inputErr = ''EOF'',
       message = None, trace = []\<rparr>
     = Done (Inl EmptyMessage,
         \<lparr>input = ''600 URI Acquire'' @ [NL], inputErr = ''EOF'', message = None,
          trace = [Poll, ReadOk]\<rparr>)"
proof -
  have b: "blankLine ('' '' @ [CHR 0x09, CHR 0x0D, NL])" by code_simp
  show ?thesis
    using blank_line_when_idle [of "\<lparr>input = '' '' @ [CHR 0x09, CHR 0x0D, NL] @ ''600 URI Acquire'' @ [NL],
        inputErr = ''EOF'', message = None, trace = []\<rparr>" "\<lambda>t. None"
        "'' '' @ [CHR 0x09, CHR 0x0D, NL]" "''600 URI Acquire'' @ [NL]", OF _ _ b]
    by (simp add: afterLine_def)
qed

text \<open>
  C4. A non-blank line read after a header and before the blank line (the reader has a
  message in progress, or is idle and reads a well-formed header first; any number of
  well-formed field lines come before) that has no colon, or whose trimmed key or trimmed
  value is empty, makes \<open>ReadMessage\<close> return a malformed-field error, which is a
  protocol-format error, and no message.
\<close>

theorem malformed_field_rejected:
  fixes r :: "'x MessageReader"
  assumes "\<forall>t. ctx t = None"
    and "list_all fieldLine fs"
    and "isLine raw" and "TrimSpace raw \<noteq> []"
    and "COLON \<notin> set (TrimSpace raw) \<or> fieldKey raw = [] \<or> fieldValue raw = []"
    and "(message r = Some m \<and> input r = concat fs @ raw @ rest)
       \<or> (message r = None \<and> headerLine h \<and> input r = h @ concat fs @ raw @ rest)"
  shows "\<exists>r'. ReadMessage ctx r = Done (Inl (fieldError raw), r')
    \<and> malformedField (fieldError raw :: 'x error)
    \<and> ProtocolFormat (fieldError raw :: 'x error)"
proof -
  have alive: "ctx t = None" for t using assms(1) by simp
  have cls: "malformedField (fieldError raw :: 'x error) \<and> ProtocolFormat (fieldError raw :: 'x error)"
    by (simp add: fieldError_def malformedField_def ProtocolFormat_def)
  have busy: "\<exists>r'. ReadMessage ctx s = Done (Inl (fieldError raw), r')"
    if s: "message s = Some m0" "input s = concat fs @ raw @ rest" for s :: "'x MessageReader" and m0
  proof -
    let ?s1 = "(afterLines s (length fs) (raw @ rest))\<lparr>message := Some (addFields m0 fs)\<rparr>"
    have "ReadMessage ctx s = ReadMessage ctx ?s1"
      using ReadMessage_fields_skip [OF assms(1) s(1) assms(2), of "raw @ rest"] s(2) by simp
    moreover have "\<exists>r'. ReadMessage ctx ?s1 = Done (Inl (fieldError raw), r')"
      using ReadMessage_field_bad [of ctx ?s1 raw rest "addFields m0 fs", OF alive assms(3) _ assms(4) _ assms(5)]
      by (simp add: afterLines_def)
    ultimately show ?thesis by simp
  qed
  from assms(6) have "\<exists>r'. ReadMessage ctx r = Done (Inl (fieldError raw), r')"
  proof (elim disjE conjE)
    assume "message r = Some m" and "input r = concat fs @ raw @ rest"
    then show ?thesis by (rule busy)
  next
    assume idle: "message r = None" and h: "headerLine h"
      and i: "input r = h @ concat fs @ raw @ rest"
    let ?r1 = "(afterLine r (concat fs @ raw @ rest))\<lparr>message := Some (headerMessage h)\<rparr>"
    have "ReadMessage ctx r = ReadMessage ctx ?r1"
      using ReadMessage_header_ok [of ctx r h "concat fs @ raw @ rest", OF alive h i idle] .
    moreover have "\<exists>r'. ReadMessage ctx ?r1 = Done (Inl (fieldError raw), r')"
      by (rule busy [of ?r1 "headerMessage h"]) (simp_all add: afterLine_def)
    ultimately show ?thesis by simp
  qed
  with cls show ?thesis by blast
qed

theorem malformed_field_rejected_witness:
  "(\<exists>r'. ReadMessage (\<lambda>t. None)
      \<lparr>input = ''600 URI Acquire'' @ [NL] @ ''URI: x'' @ [NL] @ ''Filename'' @ [NL, NL],
       inputErr = ''EOF'', message = None, trace = []\<rparr>
     = Done (Inl (FieldParts ''Filename''), r'))
   \<and> (\<exists>r'. ReadMessage (\<lambda>t. None)
      \<lparr>input = '': foo'' @ [NL, NL], inputErr = ''EOF'',
       message = Some \<lparr>code = 700, description = ''Malformed message'', fields' = None\<rparr>,
       trace = []\<rparr>
     = Done (Inl (FieldEmpty '': foo''), r'))
   \<and> (\<exists>r'. ReadMessage (\<lambda>t. None)
      \<lparr>input = ''URI:  '' @ [NL, NL], inputErr = ''EOF'',
       message = Some \<lparr>code = 600, description = ''URI Acquire'', fields' = None\<rparr>,
       trace = []\<rparr>
     = Done (Inl (FieldEmpty ''URI:''), r'))"
proof -
  let ?h = "''600 URI Acquire'' @ [NL]"
  let ?fs = "[''URI: x'' @ [NL]]"
  let ?a = "''Filename'' @ [NL]" and ?b = "'': foo'' @ [NL]" and ?c = "''URI:  '' @ [NL]"
  let ?ra = "\<lparr>input = ''600 URI Acquire'' @ [NL] @ ''URI: x'' @ [NL] @ ''Filename'' @ [NL, NL],
       inputErr = ''EOF'', message = None, trace = []\<rparr>"
  let ?mb = "\<lparr>code = 700, description = ''Malformed message'', fields' = None\<rparr>"
  let ?rb = "\<lparr>input = '': foo'' @ [NL, NL], inputErr = ''EOF'', message = Some ?mb, trace = []\<rparr>"
  let ?mc = "\<lparr>code = 600, description = ''URI Acquire'', fields' = None\<rparr>"
  let ?rc = "\<lparr>input = ''URI:  '' @ [NL, NL], inputErr = ''EOF'', message = Some ?mc, trace = []\<rparr>"
  have h: "headerLine ?h" by code_simp
  have fs: "list_all fieldLine ?fs" by code_simp
  have la: "isLine ?a" and lb: "isLine ?b" and lc: "isLine ?c" by code_simp+
  have na: "TrimSpace ?a \<noteq> []" and nb: "TrimSpace ?b \<noteq> []" and nc: "TrimSpace ?c \<noteq> []"
    by code_simp+
  have ba: "COLON \<notin> set (TrimSpace ?a) \<or> fieldKey ?a = [] \<or> fieldValue ?a = []" by code_simp
  have bb: "COLON \<notin> set (TrimSpace ?b) \<or> fieldKey ?b = [] \<or> fieldValue ?b = []" by code_simp
  have bc: "COLON \<notin> set (TrimSpace ?c) \<or> fieldKey ?c = [] \<or> fieldValue ?c = []" by code_simp
  have ea: "(fieldError ?a :: string error) = FieldParts ''Filename''" by code_simp
  have eb: "(fieldError ?b :: string error) = FieldEmpty '': foo''" by code_simp
  have ec: "(fieldError ?c :: string error) = FieldEmpty ''URI:''" by code_simp
  have "\<exists>r'. ReadMessage (\<lambda>t. None) ?ra = Done (Inl (fieldError ?a), r')
    \<and> malformedField (fieldError ?a :: string error) \<and> ProtocolFormat (fieldError ?a :: string error)"
    by (rule malformed_field_rejected [of "\<lambda>t. None" ?fs ?a ?ra undefined "[NL]" ?h, OF _ fs la na ba])
       (use h in simp_all)
  moreover have "\<exists>r'. ReadMessage (\<lambda>t. None) ?rb = Done (Inl (fieldError ?b), r')
    \<and> malformedField (fieldError ?b :: string error) \<and> ProtocolFormat (fieldError ?b :: string error)"
    by (rule malformed_field_rejected [of "\<lambda>t. None" "[]" ?b ?rb ?mb "[NL]" undefined, OF _ _ lb nb bb])
       simp_all
  moreover have "\<exists>r'. ReadMessage (\<lambda>t. None) ?rc = Done (Inl (fieldError ?c), r')
    \<and> malformedField (fieldError ?c :: string error) \<and> ProtocolFormat (fieldError ?c :: string error)"
    by (rule malformed_field_rejected [of "\<lambda>t. None" "[]" ?c ?rc ?mc "[NL]" undefined, OF _ _ lc nc bc])
       simp_all
  ultimately show ?thesis unfolding ea eb ec by blast
qed

text \<open>
  C6. When the read of a line fails, \<open>ReadMessage\<close> returns the error of the source as
  it is (\<open>Extern\<close> holds the very value the source gave): in the first round, and in
  whichever round of a call the read fails. It is not a protocol-format error.
\<close>

theorem read_error_returned_verbatim:
  fixes r :: "'x MessageReader"
  shows "(ctx (length (trace r)) = None \<and> NL \<notin> set (input r) \<longrightarrow>
      ReadMessage ctx r =
        Done (Inl (Extern (inputErr r)), r\<lparr>input := [], trace := trace r @ [Poll, ReadFail]\<rparr>))
    \<and> (ReadMessage ctx r = Done (res, r') \<and> ReadFail \<in> set (drop (length (trace r)) (trace r'))
        \<longrightarrow> res = Inl (Extern (inputErr r)))
    \<and> \<not> ProtocolFormat (Extern (inputErr r))"
proof (intro conjI impI)
  assume "ctx (length (trace r)) = None \<and> NL \<notin> set (input r)"
  then show "ReadMessage ctx r =
        Done (Inl (Extern (inputErr r)), r\<lparr>input := [], trace := trace r @ [Poll, ReadFail]\<rparr>)"
    using ReadMessage_readfail [of ctx r] by simp
next
  assume a: "ReadMessage ctx r = Done (res, r') \<and> ReadFail \<in> set (drop (length (trace r)) (trace r'))"
  then obtain evs where "trace r' = trace r @ evs"
    and "ReadFail \<in> set evs \<longrightarrow> res = Inl (Extern (inputErr r))"
    using ReadMessage_events [of ctx r res r'] by blast
  then show "res = Inl (Extern (inputErr r))" using a by simp
next
  show "\<not> ProtocolFormat (Extern (inputErr r))" by (simp add: ProtocolFormat_def)
qed

theorem read_error_returned_verbatim_witness:
  "ReadMessage (\<lambda>t. None)
      \<lparr>input = ''600 URI Acq'', inputErr = ''EOF'', message = None, trace = []\<rparr>
     = Done (Inl (Extern ''EOF''),
         \<lparr>input = [], inputErr = ''EOF'', message = None, trace = [Poll, ReadFail]\<rparr>)
   \<and> (\<exists>r'. ReadMessage (\<lambda>t. None)
      \<lparr>input = ''600 URI Acquire'' @ [NL] @ ''URI: x'', inputErr = ''unexpected EOF'',
       message = None, trace = []\<rparr>
     = Done (Inl (Extern ''unexpected EOF''), r')
     \<and> trace r' = [Poll, ReadOk, Poll, ReadFail])"
proof -
  let ?r = "\<lparr>input = ''600 URI Acq'', inputErr = ''EOF'', message = None, trace = []\<rparr>"
  let ?h = "''600 URI Acquire'' @ [NL]"
  let ?s = "\<lparr>input = ''600 URI Acquire'' @ [NL] @ ''URI: x'', inputErr = ''unexpected EOF'',
       message = None, trace = []\<rparr>"
  let ?s1 = "(afterLine ?s ''URI: x'')\<lparr>message := Some (headerMessage ?h)\<rparr>"
  let ?s2 = "?s1\<lparr>input := [], trace := trace ?s1 @ [Poll, ReadFail]\<rparr>"
  have 1: "ReadMessage (\<lambda>t. None) ?r
     = Done (Inl (Extern ''EOF''),
         \<lparr>input = [], inputErr = ''EOF'', message = None, trace = [Poll, ReadFail]\<rparr>)"
    using read_error_returned_verbatim [of "\<lambda>t. None" ?r undefined undefined]
    by simp
  have h: "headerLine ?h" by code_simp
  have "ReadMessage (\<lambda>t. None) ?s = ReadMessage (\<lambda>t. None) ?s1"
    by (rule ReadMessage_header_ok [of "\<lambda>t. None" ?s ?h "''URI: x''", OF _ h]) simp_all
  also have "\<dots> = Done (Inl (Extern (inputErr ?s1)), ?s2)"
    by (rule ReadMessage_readfail) (simp_all add: afterLine_def)
  finally have run: "ReadMessage (\<lambda>t. None) ?s = Done (Inl (Extern (inputErr ?s1)), ?s2)" .
  have t: "trace ?s2 = [Poll, ReadOk, Poll, ReadFail]" by (simp add: afterLine_def)
  have "ReadFail \<in> set (drop (length (trace ?s)) (trace ?s2))" unfolding t by simp
  with run have "Inl (Extern (inputErr ?s1)) = Inl (Extern (inputErr ?s))"
    using read_error_returned_verbatim [of "\<lambda>t. None" ?s "Inl (Extern (inputErr ?s1))" ?s2]
    by blast
  with run have "ReadMessage (\<lambda>t. None) ?s = Done (Inl (Extern ''unexpected EOF''), ?s2)"
    by simp
  with t 1 show ?thesis by blast
qed

text \<open>
  C7. \<open>ReadMessage\<close> polls the context once before each read. If the context is
  cancelled at a poll, the call returns the context's error with no further read (the input
  is untouched). The events of a call are a poll before each read, each such poll having
  found the context not cancelled, and a call whose last event is a poll returned the
  error that poll found. What the context is between a poll and the end of the read after
  it (the odd instants) has no effect on the call.
\<close>

theorem cancellation_polled_once_per_line:
  fixes r :: "'x MessageReader"
  shows "(ctx (length (trace r)) = Some e \<longrightarrow>
      ReadMessage ctx r = Done (Inl (Extern e), r\<lparr>trace := trace r @ [Poll]\<rparr>))
    \<and> (ReadMessage ctx r = Done (res, r') \<longrightarrow>
      (\<exists>evs. trace r' = trace r @ evs
        \<and> callEvents ctx (length (trace r)) evs
        \<and> (last evs = Poll \<longrightarrow>
             (\<exists>e. ctx (length (trace r') - 1) = Some e \<and> res = Inl (Extern e)))))
    \<and> ((\<forall>k. ctx' (length (trace r) + 2 * k) = ctx (length (trace r) + 2 * k)) \<longrightarrow>
      ReadMessage ctx' r = ReadMessage ctx r)"
proof (intro conjI impI)
  assume "ctx (length (trace r)) = Some e"
  then show "ReadMessage ctx r = Done (Inl (Extern e), r\<lparr>trace := trace r @ [Poll]\<rparr>)"
    by (rule ReadMessage_cancelled)
next
  assume "ReadMessage ctx r = Done (res, r')"
  from ReadMessage_events [OF this]
  show "\<exists>evs. trace r' = trace r @ evs
        \<and> callEvents ctx (length (trace r)) evs
        \<and> (last evs = Poll \<longrightarrow>
             (\<exists>e. ctx (length (trace r') - 1) = Some e \<and> res = Inl (Extern e)))"
    by blast
next
  assume "\<forall>k. ctx' (length (trace r) + 2 * k) = ctx (length (trace r) + 2 * k)"
  then show "ReadMessage ctx' r = ReadMessage ctx r"
    by (rule ReadMessage_same_polls)
qed

theorem cancellation_polled_once_per_line_witness:
  "ReadMessage (\<lambda>t. if 2 \<le> t then Some ''context canceled'' else None)
      \<lparr>input = ''600 URI Acquire'' @ [NL] @ ''URI: x'' @ [NL, NL], inputErr = ''EOF'',
       message = None, trace = []\<rparr>
     = Done (Inl (Extern ''context canceled''),
         \<lparr>input = ''URI: x'' @ [NL, NL], inputErr = ''EOF'',
          message = Some \<lparr>code = 600, description = ''URI Acquire'', fields' = None\<rparr>,
          trace = [Poll, ReadOk, Poll]\<rparr>)
   \<and> callEvents (\<lambda>t. if 2 \<le> t then Some ''context canceled'' else None) 0 [Poll, ReadOk, Poll]
   \<and> ReadMessage (\<lambda>t. if 2 \<le> t \<or> t = 1 then Some ''context canceled'' else None)
      \<lparr>input = ''600 URI Acquire'' @ [NL] @ ''URI: x'' @ [NL, NL], inputErr = ''EOF'',
       message = None, trace = []\<rparr>
     = ReadMessage (\<lambda>t. if 2 \<le> t then Some ''context canceled'' else None)
      \<lparr>input = ''600 URI Acquire'' @ [NL] @ ''URI: x'' @ [NL, NL], inputErr = ''EOF'',
       message = None, trace = []\<rparr>"
proof -
  let ?ctx = "\<lambda>t::nat. if 2 \<le> t then Some ''context canceled'' else None"
  let ?ctx' = "\<lambda>t::nat. if 2 \<le> t \<or> t = 1 then Some ''context canceled'' else None"
  let ?h = "''600 URI Acquire'' @ [NL]"
  let ?rest = "''URI: x'' @ [NL, NL]"
  let ?r = "\<lparr>input = ''600 URI Acquire'' @ [NL] @ ''URI: x'' @ [NL, NL], inputErr = ''EOF'',
       message = None, trace = []\<rparr>"
  let ?r1 = "(afterLine ?r ?rest)\<lparr>message := Some (headerMessage ?h)\<rparr>"
  let ?r2 = "?r1\<lparr>trace := trace ?r1 @ [Poll]\<rparr>"
  have h: "headerLine ?h" by code_simp
  have c: "Atoi (headerToken ?h) = Some 600" by code_simp
  have d: "headerRest ?h = ''URI Acquire''" by code_simp
  have m: "headerMessage ?h = \<lparr>code = 600, description = ''URI Acquire'', fields' = None\<rparr>"
    unfolding headerMessage_def c d by simp
  have "ReadMessage ?ctx ?r = ReadMessage ?ctx ?r1"
    by (rule ReadMessage_header_ok [of ?ctx ?r ?h ?rest, OF _ h]) simp_all
  moreover have "?ctx (length (trace ?r1)) = Some ''context canceled''"
    by (simp add: afterLine_def)
  then have "ReadMessage ?ctx ?r1 = Done (Inl (Extern ''context canceled''), ?r2)"
    using cancellation_polled_once_per_line [of ?ctx ?r1 "''context canceled''" undefined undefined ?ctx]
    by blast
  ultimately have run: "ReadMessage ?ctx ?r = Done (Inl (Extern ''context canceled''), ?r2)"
    by simp
  have r2: "?r2 = \<lparr>input = ''URI: x'' @ [NL, NL], inputErr = ''EOF'',
          message = Some \<lparr>code = 600, description = ''URI Acquire'', fields' = None\<rparr>,
          trace = [Poll, ReadOk, Poll]\<rparr>"
    unfolding m by (simp add: afterLine_def)
  have "\<exists>evs. trace ?r2 = trace ?r @ evs \<and> callEvents ?ctx (length (trace ?r)) evs"
    using cancellation_polled_once_per_line [of ?ctx ?r undefined "Inl (Extern ''context canceled'')" ?r2 ?ctx] run
    by blast
  then have ev: "callEvents ?ctx 0 [Poll, ReadOk, Poll]"
    unfolding r2 by simp
  have "\<forall>k. ?ctx' (length (trace ?r) + 2 * k) = ?ctx (length (trace ?r) + 2 * k)"
    by auto
  then have "ReadMessage ?ctx' ?r = ReadMessage ?ctx ?r"
    using cancellation_polled_once_per_line [of ?ctx ?r undefined undefined undefined ?ctx']
    by blast
  with run ev show ?thesis unfolding r2 by simp
qed

text \<open>
  C9. \<open>ReadMessage\<close> never returns the error \<open>DoubleHeader\<close>, whatever the state of the
  reader, the input and the context: no single call does, and no call in a row of calls.
  \<open>parseHeader\<close> is only called on a fresh message, whose code is 0 and whose description
  is empty.
\<close>

theorem double_header_never_returned:
  "ReadMessage ctx r \<noteq> Done (Inl DoubleHeader, r')
   \<and> Inl DoubleHeader \<notin> set (ReadMessages ctx n r)"
  using ReadMessage_not_DoubleHeader [of ctx r r'] ReadMessages_not_DoubleHeader [of ctx n r]
  by (intro conjI)

theorem double_header_never_returned_witness:
  "Inl DoubleHeader \<notin> set (ReadMessages (\<lambda>t. None) 3
      \<lparr>input = ''600 URI Acquire'' @ [NL] @ ''600 URI Acquire'' @ [NL, NL],
       inputErr = ''EOF'', message = Some \<lparr>code = 600, description = ''x'', fields' = None\<rparr>,
       trace = []\<rparr>)"
  using double_header_never_returned [of "\<lambda>t. None"
      "\<lparr>input = ''600 URI Acquire'' @ [NL] @ ''600 URI Acquire'' @ [NL, NL],
       inputErr = ''EOF'', message = Some \<lparr>code = 600, description = ''x'', fields' = None\<rparr>,
       trace = []\<rparr>" undefined 3]
  by (rule conjunct2)

text \<open>
  C10. When a line does not parse, \<open>ReadMessage\<close> returns a malformed-header or
  malformed-field error and the reader keeps a message in progress. The line is the header
  an idle reader reads first, or a field line: one that an idle reader meets in the same
  call after a well-formed header and any well-formed field lines, or one that a reader with
  a message in progress meets after any well-formed field lines. The next call parses the
  lines that follow as field lines of the message kept and returns it at the blank line:
  code, description and values are those the message had before the erroneous line (those
  of a fresh message after a header error), with the values of the later field lines
  appended. The erroneous line alone is dropped.
\<close>

theorem parse_error_keeps_message:
  fixes r :: "'x MessageReader"
  assumes "\<forall>t. ctx t = None"
    and "isLine raw" and "TrimSpace raw \<noteq> []"
    and "list_all fieldLine gs" and "list_all fieldLine fs" and "blankLine b"
    and "(message r = None \<and> badHeader raw \<and> gs = []
            \<and> input r = raw @ concat fs @ b @ rest \<and> acc = zeroMessage)
       \<or> (message r = None \<and> headerLine h \<and> badField raw
            \<and> input r = h @ concat gs @ raw @ concat fs @ b @ rest
            \<and> acc = addFields (headerMessage h) gs)
       \<or> (message r = Some m0 \<and> badField raw
            \<and> input r = concat gs @ raw @ concat fs @ b @ rest \<and> acc = addFields m0 gs)"
  shows "\<exists>e r1 m r2. ReadMessage ctx r = Done (Inl e, r1)
    \<and> (malformedHeader e \<or> malformedField e)
    \<and> message r1 \<noteq> None \<and> input r1 = concat fs @ b @ rest
    \<and> ReadMessage ctx r1 = Done (Inr m, r2)
    \<and> code m = code acc \<and> description m = description acc
    \<and> (\<forall>k. fieldValues m k =
          fieldValues acc k @ map fieldValue (filter (\<lambda>f. fieldKey f = k) fs))
    \<and> message r2 = None \<and> input r2 = rest"
proof -
  have alive: "ctx t = None" for t using assms(1) by simp
  let ?tail = "concat fs @ b @ rest"
  let ?goal = "\<lambda>(s :: 'x MessageReader) a. \<exists>e r1 m r2. ReadMessage ctx s = Done (Inl e, r1)
    \<and> (malformedHeader e \<or> malformedField e)
    \<and> message r1 \<noteq> None \<and> input r1 = ?tail
    \<and> ReadMessage ctx r1 = Done (Inr m, r2)
    \<and> code m = code a \<and> description m = description a
    \<and> (\<forall>k. fieldValues m k =
          fieldValues a k @ map fieldValue (filter (\<lambda>f. fieldKey f = k) fs))
    \<and> message r2 = None \<and> input r2 = rest"
  have next_call: "\<exists>m r2. ReadMessage ctx r1 = Done (Inr m, r2)
      \<and> code m = code m1 \<and> description m = description m1
      \<and> (\<forall>k. fieldValues m k = fieldValues m1 k @ map fieldValue (filter (\<lambda>f. fieldKey f = k) fs))
      \<and> message r2 = None \<and> input r2 = rest"
    if "message r1 = Some m1" and "input r1 = ?tail" for r1 :: "'x MessageReader" and m1
  proof -
    have "ReadMessage ctx r1 =
        Done (Inr (addFields m1 fs), (afterLines r1 (Suc (length fs)) rest)\<lparr>message := None\<rparr>)"
      using assms(1) that(1) assms(5,6) that(2) by (rule ReadMessage_fields_blank)
    then show ?thesis
      by (simp add: fieldValues_addFields afterLines_def)
  qed
  have field: "?goal s (addFields m1 gs)"
    if s: "message s = Some m1" "input s = concat gs @ raw @ ?tail" and bad: "badField raw"
    for s :: "'x MessageReader" and m1
  proof -
    let ?a = "addFields m1 gs"
    let ?s1 = "(afterLines s (length gs) (raw @ ?tail))\<lparr>message := Some ?a\<rparr>"
    let ?m1 = "if COLON \<notin> set (TrimSpace raw) then ?a else ?a\<lparr>fields' := Some (madeFields ?a)\<rparr>"
    let ?r1 = "(afterLine ?s1 ?tail)\<lparr>message := Some ?m1\<rparr>"
    have b: "COLON \<notin> set (TrimSpace raw) \<or> fieldKey raw = [] \<or> fieldValue raw = []"
      using bad by (simp add: badField_def)
    have "ReadMessage ctx s = ReadMessage ctx ?s1"
      using ReadMessage_fields_skip [OF assms(1) s(1) assms(4), of "raw @ ?tail"] s(2) by simp
    also have "\<dots> = Done (Inl (fieldError raw), ?r1)"
      by (rule ReadMessage_field_bad [of ctx ?s1 raw ?tail ?a, OF alive assms(2) _ assms(3) _ b])
         (simp_all add: afterLines_def)
    finally have 1: "ReadMessage ctx s = Done (Inl (fieldError raw), ?r1)" .
    have 2: "malformedField (fieldError raw :: 'x error)"
      by (simp add: fieldError_def malformedField_def)
    have 3: "message ?r1 \<noteq> None \<and> input ?r1 = ?tail" by (simp add: afterLine_def)
    have same: "code ?m1 = code ?a \<and> description ?m1 = description ?a
        \<and> (\<forall>k. fieldValues ?m1 k = fieldValues ?a k)"
      by simp
    have "\<exists>m r2. ReadMessage ctx ?r1 = Done (Inr m, r2)
      \<and> code m = code ?m1 \<and> description m = description ?m1
      \<and> (\<forall>k. fieldValues m k = fieldValues ?m1 k @ map fieldValue (filter (\<lambda>f. fieldKey f = k) fs))
      \<and> message r2 = None \<and> input r2 = rest"
      by (rule next_call) (simp_all add: afterLine_def)
    then have "\<exists>m r2. ReadMessage ctx ?r1 = Done (Inr m, r2)
      \<and> code m = code ?a \<and> description m = description ?a
      \<and> (\<forall>k. fieldValues m k = fieldValues ?a k @ map fieldValue (filter (\<lambda>f. fieldKey f = k) fs))
      \<and> message r2 = None \<and> input r2 = rest"
      using same by metis
    with 1 2 3 show ?thesis by blast
  qed
  from assms(7) show ?thesis
  proof (elim disjE conjE)
    assume idle: "message r = None" and bad: "badHeader raw"
      and i: "input r = raw @ concat fs @ b @ rest" and acc: "acc = zeroMessage"
    let ?r1 = "(afterLine r ?tail)\<lparr>message := Some zeroMessage\<rparr>"
    have b: "SP \<notin> set (TrimSpace raw) \<or> Atoi (headerToken raw) = None"
      using bad by (simp add: badHeader_def)
    have 1: "ReadMessage ctx r = Done (Inl (headerError raw), ?r1)"
      by (rule ReadMessage_header_bad [of ctx r raw ?tail, OF alive assms(2) i assms(3) idle b])
    have 2: "malformedHeader (headerError raw :: 'x error)"
      by (simp add: headerError_def malformedHeader_def)
    have 3: "message ?r1 \<noteq> None \<and> input ?r1 = ?tail" by (simp add: afterLine_def)
    have "\<exists>m r2. ReadMessage ctx ?r1 = Done (Inr m, r2)
      \<and> code m = code zeroMessage \<and> description m = description zeroMessage
      \<and> (\<forall>k. fieldValues m k = fieldValues zeroMessage k @ map fieldValue (filter (\<lambda>f. fieldKey f = k) fs))
      \<and> message r2 = None \<and> input r2 = rest"
      by (rule next_call) (simp_all add: afterLine_def)
    with 1 2 3 show ?thesis unfolding acc by blast
  next
    assume idle: "message r = None" and h: "headerLine h" and bad: "badField raw"
      and i: "input r = h @ concat gs @ raw @ concat fs @ b @ rest"
      and acc: "acc = addFields (headerMessage h) gs"
    let ?s = "(afterLine r (concat gs @ raw @ ?tail))\<lparr>message := Some (headerMessage h)\<rparr>"
    have "ReadMessage ctx r = ReadMessage ctx ?s"
      using ReadMessage_header_ok [of ctx r h "concat gs @ raw @ ?tail", OF alive h i idle] .
    moreover have "?goal ?s (addFields (headerMessage h) gs)"
      by (rule field [OF _ _ bad]) (simp_all add: afterLine_def)
    ultimately show ?thesis unfolding acc by simp
  next
    assume "message r = Some m0" and "badField raw"
      and "input r = concat gs @ raw @ concat fs @ b @ rest" and acc: "acc = addFields m0 gs"
    then show ?thesis unfolding acc using field [of r m0] by simp
  qed
qed

theorem parse_error_keeps_message_witness:
  "(\<exists>e r1 m r2. ReadMessage (\<lambda>t. None)
        \<lparr>input = (''600 URI Acquire'' @ [NL]) @ concat [''URI: x'' @ [NL]] @ (''Filename'' @ [NL])
            @ concat [''Size:  3'' @ [NL]] @ [NL] @ ''601 Configuration'',
         inputErr = ''EOF'', message = None, trace = []\<rparr> = Done (Inl e, r1)
    \<and> (malformedHeader e \<or> malformedField e)
    \<and> message r1 \<noteq> None \<and> input r1 = ''Size:  3'' @ [NL] @ [NL] @ ''601 Configuration''
    \<and> ReadMessage (\<lambda>t. None) r1 = Done (Inr m, r2)
    \<and> code m = 600 \<and> description m = ''URI Acquire''
    \<and> fieldValues m ''URI'' = [''x''] \<and> fieldValues m ''Size'' = [''3'']
    \<and> fieldValues m ''Filename'' = []
    \<and> message r2 = None \<and> input r2 = ''601 Configuration'')
   \<and> (\<exists>e r1 m r2. ReadMessage (\<lambda>t. None)
        \<lparr>input = (''URI Acquire'' @ [NL]) @ concat [''URI: x'' @ [NL]] @ [NL] @ ''601 Configuration'',
         inputErr = ''EOF'', message = None, trace = []\<rparr> = Done (Inl e, r1)
    \<and> (malformedHeader e \<or> malformedField e)
    \<and> message r1 \<noteq> None \<and> input r1 = ''URI: x'' @ [NL] @ [NL] @ ''601 Configuration''
    \<and> ReadMessage (\<lambda>t. None) r1 = Done (Inr m, r2)
    \<and> code m = 0 \<and> description m = [] \<and> fieldValues m ''URI'' = [''x'']
    \<and> message r2 = None \<and> input r2 = ''601 Configuration'')
   \<and> (case ReadMessage (\<lambda>t. None)
        \<lparr>input = (''600 URI Acquire'' @ [NL]) @ concat [''URI: x'' @ [NL]] @ (''Filename'' @ [NL])
            @ concat [''Size:  3'' @ [NL]] @ [NL] @ ''601 Configuration'',
         inputErr = ''EOF'', message = None, trace = []\<rparr> of
        Done (Inl e, r1) \<Rightarrow>
          e = FieldParts ''Filename''
          \<and> (case ReadMessage (\<lambda>t. None) r1 of
                Done (Inr m, r2) \<Rightarrow>
                  code m = 600 \<and> description m = ''URI Acquire''
                  \<and> fieldValues m ''URI'' = [''x''] \<and> fieldValues m ''Size'' = [''3'']
                  \<and> fieldValues m ''Filename'' = []
                  \<and> input r2 = ''601 Configuration''
              | _ \<Rightarrow> False)
      | _ \<Rightarrow> False)"
proof -
  let ?ctx = "\<lambda>t::nat. None :: string option"
  let ?h = "''600 URI Acquire'' @ [NL]"
  let ?gs = "[''URI: x'' @ [NL]]"
  let ?raw = "''Filename'' @ [NL]"
  let ?fs = "[''Size:  3'' @ [NL]]"
  let ?rest = "''601 Configuration''"
  let ?r = "\<lparr>input = ?h @ concat ?gs @ ?raw @ concat ?fs @ [NL] @ ?rest,
         inputErr = ''EOF'', message = None, trace = []\<rparr>"
  let ?acc = "addFields (headerMessage ?h) ?gs"
  have h: "headerLine ?h" by code_simp
  have hc: "Atoi (headerToken ?h) = Some 600" by code_simp
  have hd: "headerRest ?h = ''URI Acquire''" by code_simp
  have gs: "list_all fieldLine ?gs" by code_simp
  have fs: "list_all fieldLine ?fs" by code_simp
  have b: "blankLine [NL]" by code_simp
  have l: "isLine ?raw" by code_simp
  have n: "TrimSpace ?raw \<noteq> []" by code_simp
  have bad: "badField ?raw" by code_simp
  have gu: "map fieldValue (filter (\<lambda>f. fieldKey f = ''URI'') ?gs) = [''x'']" by code_simp
  have gz: "map fieldValue (filter (\<lambda>f. fieldKey f = ''Size'') ?gs) = []" by code_simp
  have gf: "map fieldValue (filter (\<lambda>f. fieldKey f = ''Filename'') ?gs) = []" by code_simp
  have fu: "map fieldValue (filter (\<lambda>f. fieldKey f = ''URI'') ?fs) = []" by code_simp
  have fz: "map fieldValue (filter (\<lambda>f. fieldKey f = ''Size'') ?fs) = [''3'']" by code_simp
  have ff: "map fieldValue (filter (\<lambda>f. fieldKey f = ''Filename'') ?fs) = []" by code_simp
  have acc: "code ?acc = 600 \<and> description ?acc = ''URI Acquire''
      \<and> fieldValues ?acc ''URI'' = [''x''] \<and> fieldValues ?acc ''Size'' = []
      \<and> fieldValues ?acc ''Filename'' = []"
    unfolding fieldValues_addFields gu gz gf code_addFields description_addFields
    unfolding headerMessage_def hc hd
    by (simp add: fieldValues_def)
  have "\<exists>e r1 m r2. ReadMessage ?ctx ?r = Done (Inl e, r1)
    \<and> (malformedHeader e \<or> malformedField e)
    \<and> message r1 \<noteq> None \<and> input r1 = concat ?fs @ [NL] @ ?rest
    \<and> ReadMessage ?ctx r1 = Done (Inr m, r2)
    \<and> code m = code ?acc \<and> description m = description ?acc
    \<and> (\<forall>k. fieldValues m k =
          fieldValues ?acc k @ map fieldValue (filter (\<lambda>f. fieldKey f = k) ?fs))
    \<and> message r2 = None \<and> input r2 = ?rest"
    by (rule parse_error_keeps_message [of ?ctx ?raw ?gs ?fs "[NL]" ?r ?rest ?acc ?h undefined,
          OF _ l n gs fs b]) (use h bad in simp_all)
  then obtain e r1 m r2 where *: "ReadMessage ?ctx ?r = Done (Inl e, r1)"
    "malformedHeader e \<or> malformedField e"
    "message r1 \<noteq> None" "input r1 = concat ?fs @ [NL] @ ?rest"
    "ReadMessage ?ctx r1 = Done (Inr m, r2)"
    "code m = code ?acc" "description m = description ?acc"
    "\<forall>k. fieldValues m k = fieldValues ?acc k @ map fieldValue (filter (\<lambda>f. fieldKey f = k) ?fs)"
    "message r2 = None" "input r2 = ?rest"
    by blast
  have "fieldValues m ''URI'' = fieldValues ?acc ''URI'' @ map fieldValue (filter (\<lambda>f. fieldKey f = ''URI'') ?fs)"
    and "fieldValues m ''Size'' = fieldValues ?acc ''Size'' @ map fieldValue (filter (\<lambda>f. fieldKey f = ''Size'') ?fs)"
    and "fieldValues m ''Filename'' = fieldValues ?acc ''Filename'' @ map fieldValue (filter (\<lambda>f. fieldKey f = ''Filename'') ?fs)"
    using *(8) by blast+
  then have "fieldValues m ''URI'' = [''x'']" and "fieldValues m ''Size'' = [''3'']"
    and "fieldValues m ''Filename'' = []"
    unfolding fu fz ff using acc by simp_all
  moreover have "code m = 600" and "description m = ''URI Acquire''"
    using *(6,7) acc by simp_all
  moreover have "input r1 = ''Size:  3'' @ [NL] @ [NL] @ ?rest" using *(4) by simp
  ultimately have A: "\<exists>e r1 m r2. ReadMessage ?ctx ?r = Done (Inl e, r1)
    \<and> (malformedHeader e \<or> malformedField e)
    \<and> message r1 \<noteq> None \<and> input r1 = ''Size:  3'' @ [NL] @ [NL] @ ?rest
    \<and> ReadMessage ?ctx r1 = Done (Inr m, r2)
    \<and> code m = 600 \<and> description m = ''URI Acquire''
    \<and> fieldValues m ''URI'' = [''x''] \<and> fieldValues m ''Size'' = [''3'']
    \<and> fieldValues m ''Filename'' = []
    \<and> message r2 = None \<and> input r2 = ?rest"
    using *(1,2,3,5,9,10) by blast
  let ?raw' = "''URI Acquire'' @ [NL]"
  let ?s = "\<lparr>input = ?raw' @ concat ?gs @ [NL] @ ?rest,
         inputErr = ''EOF'', message = None, trace = []\<rparr>"
  have l': "isLine ?raw'" by code_simp
  have n': "TrimSpace ?raw' \<noteq> []" by code_simp
  have bad': "badHeader ?raw'" by code_simp
  have z: "code zeroMessage = 0 \<and> description zeroMessage = [] \<and> fieldValues zeroMessage ''URI'' = []"
    by (simp add: zeroMessage_def fieldValues_def)
  have "\<exists>e r1 m r2. ReadMessage ?ctx ?s = Done (Inl e, r1)
    \<and> (malformedHeader e \<or> malformedField e)
    \<and> message r1 \<noteq> None \<and> input r1 = concat ?gs @ [NL] @ ?rest
    \<and> ReadMessage ?ctx r1 = Done (Inr m, r2)
    \<and> code m = code zeroMessage \<and> description m = description zeroMessage
    \<and> (\<forall>k. fieldValues m k =
          fieldValues zeroMessage k @ map fieldValue (filter (\<lambda>f. fieldKey f = k) ?gs))
    \<and> message r2 = None \<and> input r2 = ?rest"
    by (rule parse_error_keeps_message [of ?ctx ?raw' "[]" ?gs "[NL]" ?s ?rest zeroMessage undefined undefined,
          OF _ l' n' _ gs b]) (use bad' in simp_all)
  then obtain e r1 m r2 where **: "ReadMessage ?ctx ?s = Done (Inl e, r1)"
    "malformedHeader e \<or> malformedField e"
    "message r1 \<noteq> None" "input r1 = concat ?gs @ [NL] @ ?rest"
    "ReadMessage ?ctx r1 = Done (Inr m, r2)"
    "code m = code zeroMessage" "description m = description zeroMessage"
    "\<forall>k. fieldValues m k = fieldValues zeroMessage k @ map fieldValue (filter (\<lambda>f. fieldKey f = k) ?gs)"
    "message r2 = None" "input r2 = ?rest"
    by blast
  have "fieldValues m ''URI'' = fieldValues zeroMessage ''URI'' @ map fieldValue (filter (\<lambda>f. fieldKey f = ''URI'') ?gs)"
    using **(8) by blast
  then have "fieldValues m ''URI'' = [''x'']" unfolding gu using z by simp
  moreover have "code m = 0" and "description m = []" using **(6,7) z by simp_all
  moreover have "input r1 = ''URI: x'' @ [NL] @ [NL] @ ?rest" using **(4) by simp
  ultimately have B: "\<exists>e r1 m r2. ReadMessage ?ctx ?s = Done (Inl e, r1)
    \<and> (malformedHeader e \<or> malformedField e)
    \<and> message r1 \<noteq> None \<and> input r1 = ''URI: x'' @ [NL] @ [NL] @ ?rest
    \<and> ReadMessage ?ctx r1 = Done (Inr m, r2)
    \<and> code m = 0 \<and> description m = [] \<and> fieldValues m ''URI'' = [''x'']
    \<and> message r2 = None \<and> input r2 = ?rest"
    using **(1,2,3,5,9,10) by blast
  have C: "case ReadMessage ?ctx ?r of
        Done (Inl e, r1) \<Rightarrow>
          e = FieldParts ''Filename''
          \<and> (case ReadMessage ?ctx r1 of
                Done (Inr m, r2) \<Rightarrow>
                  code m = 600 \<and> description m = ''URI Acquire''
                  \<and> fieldValues m ''URI'' = [''x''] \<and> fieldValues m ''Size'' = [''3'']
                  \<and> fieldValues m ''Filename'' = []
                  \<and> input r2 = ''601 Configuration''
              | _ \<Rightarrow> False)
      | _ \<Rightarrow> False"
    by code_simp
  from A B C show ?thesis by (intro conjI)
qed

text \<open>
  C2. The claim that no call ever returns a half-built message fails on the code. After a
  header that does not parse, the next call returns a message with code 0 and an empty
  description, holding the field lines that followed; after a field line that does not
  parse, the next call returns the message without that line. Two calls in a row on two
  such inputs show it. (A call that starts with an idle reader returns only complete
  messages: \<open>ReadMessage_returns_complete\<close>.)
\<close>

theorem half_built_message_returned:
  "(\<exists>m. ReadMessages (\<lambda>t. None) 2
        \<lparr>input = ''URI Acquire'' @ [NL] @ ''URI: x'' @ [NL] @ [NL],
         inputErr = ''EOF'', message = None, trace = []\<rparr>
      = [Inl (HeaderCode ''URI Acquire''), Inr m]
     \<and> code m = 0 \<and> description m = [] \<and> fieldValues m ''URI'' = [''x''])
   \<and> (\<exists>m. ReadMessages (\<lambda>t. None) 2
        \<lparr>input = ''600 URI Acquire'' @ [NL] @ ''Filename'' @ [NL] @ ''URI: x'' @ [NL] @ [NL],
         inputErr = ''EOF'', message = None, trace = []\<rparr>
      = [Inl (FieldParts ''Filename''), Inr m]
     \<and> code m = 600 \<and> description m = ''URI Acquire'' \<and> fieldValues m ''URI'' = [''x'']
     \<and> fieldValues m ''Filename'' = [])"
proof -
  let ?ctx = "\<lambda>t::nat. None :: string option"
  let ?fs = "[''URI: x'' @ [NL]]"
  have fs: "list_all fieldLine ?fs" by code_simp
  have b: "blankLine [NL]" by code_simp
  have vu: "map fieldValue (filter (\<lambda>f. fieldKey f = ''URI'') ?fs) = [''x'']" by code_simp
  have vf: "map fieldValue (filter (\<lambda>f. fieldKey f = ''Filename'') ?fs) = []" by code_simp
  let ?raw = "''URI Acquire'' @ [NL]"
  let ?r = "\<lparr>input = ''URI Acquire'' @ [NL] @ ''URI: x'' @ [NL] @ [NL],
         inputErr = ''EOF'', message = None, trace = []\<rparr>"
  let ?r1 = "(afterLine ?r (concat ?fs @ [NL] @ []))\<lparr>message := Some zeroMessage\<rparr>"
  let ?m = "addFields zeroMessage ?fs"
  have l: "isLine ?raw" by code_simp
  have n: "TrimSpace ?raw \<noteq> []" by code_simp
  have bad: "SP \<notin> set (TrimSpace ?raw) \<or> Atoi (headerToken ?raw) = None" by code_simp
  have e: "(headerError ?raw :: string error) = HeaderCode ''URI Acquire''" by code_simp
  have 1: "ReadMessage ?ctx ?r = Done (Inl (headerError ?raw), ?r1)"
    by (rule ReadMessage_header_bad [of ?ctx ?r ?raw "concat ?fs @ [NL] @ []", OF _ l _ n _ bad])
       simp_all
  have 2: "ReadMessage ?ctx ?r1 =
      Done (Inr ?m, (afterLines ?r1 (Suc (length ?fs)) [])\<lparr>message := None\<rparr>)"
    by (rule ReadMessage_fields_blank [of ?ctx ?r1 zeroMessage ?fs "[NL]" "[]", OF _ _ fs b])
       (simp_all add: afterLine_def)
  have "ReadMessages ?ctx 2 ?r = [Inl (headerError ?raw), Inr ?m]"
    using 1 2 by (simp add: numeral_2_eq_2)
  then have A: "ReadMessages ?ctx 2 ?r = [Inl (HeaderCode ''URI Acquire''), Inr ?m]"
    unfolding e .
  have Am: "code ?m = 0 \<and> description ?m = [] \<and> fieldValues ?m ''URI'' = [''x'']"
    unfolding fieldValues_addFields vu code_addFields description_addFields
    by (simp add: zeroMessage_def fieldValues_def)
  let ?h = "''600 URI Acquire'' @ [NL]"
  let ?bad = "''Filename'' @ [NL]"
  let ?s = "\<lparr>input = ''600 URI Acquire'' @ [NL] @ ''Filename'' @ [NL] @ ''URI: x'' @ [NL] @ [NL],
         inputErr = ''EOF'', message = None, trace = []\<rparr>"
  let ?s1 = "(afterLine ?s (?bad @ concat ?fs @ [NL] @ []))\<lparr>message := Some (headerMessage ?h)\<rparr>"
  let ?s2 = "(afterLine ?s1 (concat ?fs @ [NL] @ []))\<lparr>message :=
      Some (if COLON \<notin> set (TrimSpace ?bad) then headerMessage ?h
            else (headerMessage ?h)\<lparr>fields' := Some (madeFields (headerMessage ?h))\<rparr>)\<rparr>"
  let ?k = "addFields (headerMessage ?h) ?fs"
  have h: "headerLine ?h" by code_simp
  have hc: "Atoi (headerToken ?h) = Some 600" by code_simp
  have hd: "headerRest ?h = ''URI Acquire''" by code_simp
  have lb: "isLine ?bad" by code_simp
  have nb: "TrimSpace ?bad \<noteq> []" by code_simp
  have nc: "COLON \<notin> set (TrimSpace ?bad)" by code_simp
  then have bb: "COLON \<notin> set (TrimSpace ?bad) \<or> fieldKey ?bad = [] \<or> fieldValue ?bad = []" ..
  have eb: "(fieldError ?bad :: string error) = FieldParts ''Filename''" by code_simp
  have "ReadMessage ?ctx ?s = ReadMessage ?ctx ?s1"
    by (rule ReadMessage_header_ok [of ?ctx ?s ?h "?bad @ concat ?fs @ [NL] @ []", OF _ h]) simp_all
  also have "\<dots> = Done (Inl (fieldError ?bad), ?s2)"
    by (rule ReadMessage_field_bad [of ?ctx ?s1 ?bad "concat ?fs @ [NL] @ []" "headerMessage ?h",
          OF _ lb _ nb _ bb]) (simp_all add: afterLine_def)
  finally have 3: "ReadMessage ?ctx ?s = Done (Inl (fieldError ?bad), ?s2)" .
  have 4: "ReadMessage ?ctx ?s2 =
      Done (Inr ?k, (afterLines ?s2 (Suc (length ?fs)) [])\<lparr>message := None\<rparr>)"
    by (rule ReadMessage_fields_blank [of ?ctx ?s2 "headerMessage ?h" ?fs "[NL]" "[]", OF _ _ fs b])
       (use nc in \<open>simp_all add: afterLine_def\<close>)
  have "ReadMessages ?ctx 2 ?s = [Inl (fieldError ?bad), Inr ?k]"
    using 3 4 by (simp add: numeral_2_eq_2)
  then have B: "ReadMessages ?ctx 2 ?s = [Inl (FieldParts ''Filename''), Inr ?k]"
    unfolding eb .
  have Bm: "code ?k = 600 \<and> description ?k = ''URI Acquire'' \<and> fieldValues ?k ''URI'' = [''x'']
      \<and> fieldValues ?k ''Filename'' = []"
    unfolding fieldValues_addFields vu vf code_addFields description_addFields
    unfolding headerMessage_def hc hd
    by (simp add: fieldValues_def)
  from A Am B Bm show ?thesis by blast
qed

end
